theory Spec2Isabelle
  imports Complex_Main "HOL-Library.Multiset"
begin

section \<open>The test runner \<^verbatim>\<open>run-tests.js\<close>: data and operations\<close>

text \<open>
  Test identifiers are strings. Durations are JavaScript numbers; the partitioner only
  compares them, adds them and uses the constants 0 and 1, so they are kept abstract:
  any linearly ordered type with \<open>0\<close>, \<open>1\<close> and \<open>+\<close> (the finite, non-NaN numbers that
  a JSON ledger of durations holds).
\<close>

subsection \<open>JavaScript array and string primitives used by the runner\<close>

text \<open>
  \<^verbatim>\<open>Array.prototype.slice(start, end)\<close>: a negative index counts from the end, both
  indices are clamped to the array, and an end before the start gives the empty array.
\<close>

definition js_slice :: "'a list \<Rightarrow> int \<Rightarrow> int \<Rightarrow> 'a list" where
  "js_slice xs start fin =
     (let len = int (length xs);
          k = (if start < 0 then max (len + start) 0 else min start len);
          final = (if fin < 0 then max (len + fin) 0 else min fin len)
      in take (nat (final - k)) (drop (nat k) xs))"

text \<open>\<^verbatim>\<open>xs[i]\<close> read: \<open>None\<close> is \<^verbatim>\<open>undefined\<close> (index outside the array).\<close>

definition js_index :: "'a list \<Rightarrow> int \<Rightarrow> 'a option" where
  "js_index xs i = (if 0 \<le> i \<and> i < int (length xs) then Some (xs ! nat i) else None)"

text \<open>
  \<^verbatim>\<open>xs[i] = v\<close> for \<open>i \<le> length xs\<close>: an index inside the array is overwritten, the
  index \<open>length xs\<close> appends. (The partitioner never writes further out: its counter
  runs upward from 1 over arrays that start with one element, so that it is at most
  their length, see \<open>ensure_group_facts\<close> and \<open>scan_groups_spec\<close>.)
\<close>

definition js_set :: "'a list \<Rightarrow> nat \<Rightarrow> 'a \<Rightarrow> 'a list" where
  "js_set xs i v = (if i < length xs then xs[i := v] else xs @ [v])"

text \<open>\<^verbatim>\<open>s.startsWith(p)\<close>, \<^verbatim>\<open>s.endsWith(p)\<close> and \<^verbatim>\<open>s.includes(p)\<close> (\<open>includes\<close> is a keyword of
  Isabelle, hence \<open>js_includes\<close>).\<close>

fun startsWith :: "string \<Rightarrow> string \<Rightarrow> bool" where
  "startsWith s [] = True"
| "startsWith [] (p # ps) = False"
| "startsWith (c # cs) (p # ps) = (c = p \<and> startsWith cs ps)"

definition endsWith :: "string \<Rightarrow> string \<Rightarrow> bool" where
  "endsWith s p = startsWith (rev s) (rev p)"

fun js_includes :: "string \<Rightarrow> string \<Rightarrow> bool" where
  "js_includes [] p = (p = [])"
| "js_includes (c # cs) p = (startsWith (c # cs) p \<or> js_includes cs p)"

subsection \<open>Group partitioner (\<^verbatim>\<open>main\<close>, the \<^verbatim>\<open>if (groupArg)\<close> block)\<close>

text \<open>
  The two arrays of the greedy algorithm: \<^verbatim>\<open>groups\<close> (the identifiers of each group) and
  \<^verbatim>\<open>groupTimes\<close> (the accumulated duration of each group).
\<close>

record 'a balance =
  groups :: "string list list"
  groupTimes :: "'a list"

text \<open>\<^verbatim>\<open>const groups = [[]]; const groupTimes = [0]\<close>\<close>

definition initial_balance :: "('a::zero) balance" where
  "initial_balance = \<lparr>groups = [[]], groupTimes = [0]\<rparr>"

text \<open>
  \<^verbatim>\<open>prevTimings[testName] || 1\<close>: the ledger's duration, and 1 when the ledger has no
  entry for the identifier or the entry is falsy (the number 0).
\<close>

definition duration_or_default :: "(string \<rightharpoonup> 'a::{zero,one}) \<Rightarrow> string \<Rightarrow> 'a" where
  "duration_or_default prevTimings testName =
     (case prevTimings testName of
        None \<Rightarrow> 1
      | Some d \<Rightarrow> if d = 0 then 1 else d)"

text \<open>
  \<^verbatim>\<open>if (!groups[i]) { groups[i] = []; groupTimes[i] = 0 }\<close>: a group that does not exist
  yet is created empty with time 0. The arrays in \<^verbatim>\<open>groups\<close> are all truthy, so
  \<^verbatim>\<open>!groups[i]\<close> holds exactly for an index past the end.
\<close>

definition ensure_group :: "nat \<Rightarrow> ('a::zero) balance \<Rightarrow> 'a balance" where
  "ensure_group i b =
     (if \<not> i < length (groups b)
      then b\<lparr>groups := js_set (groups b) i [], groupTimes := js_set (groupTimes b) i 0\<rparr>
      else b)"

text \<open>
  The inner loop \<^verbatim>\<open>for (let i = 1; i < groupTotal; i++)\<close>. Its state is the two arrays,
  \<^verbatim>\<open>smallestGroup\<close> and \<^verbatim>\<open>smallestGroupIdx\<close>.
\<close>

function scan_groups ::
  "int \<Rightarrow> nat \<Rightarrow> ('a::{linorder,zero}) balance \<Rightarrow> 'a \<Rightarrow> nat \<Rightarrow> 'a balance \<times> 'a \<times> nat" where
  "scan_groups groupTotal i b smallestGroup smallestGroupIdx =
     (if int i < groupTotal then
        let b1 = ensure_group i b;
            time = groupTimes b1 ! i
        in if time < smallestGroup
           then scan_groups groupTotal (Suc i) b1 time i
           else scan_groups groupTotal (Suc i) b1 smallestGroup smallestGroupIdx
      else (b, smallestGroup, smallestGroupIdx))"
  by pat_completeness auto
termination
  by (relation "measure (\<lambda>(groupTotal, i, b, s, k). nat groupTotal - i)") auto

text \<open>
  One iteration of \<^verbatim>\<open>for (const testName of testNames)\<close>: find the group, push the
  identifier onto it and add its duration to the group's time.
\<close>

definition assign_test ::
  "int \<Rightarrow> (string \<rightharpoonup> 'a) \<Rightarrow> ('a::{linorder,zero,one,plus}) balance \<Rightarrow> string \<Rightarrow> 'a balance" where
  "assign_test groupTotal prevTimings b testName =
     (case scan_groups groupTotal 1 b (groupTimes b ! 0) 0 of
        (b1, smallestGroup, smallestGroupIdx) \<Rightarrow>
          b1\<lparr>groups := (groups b1)[smallestGroupIdx := groups b1 ! smallestGroupIdx @ [testName]],
             groupTimes := (groupTimes b1)[smallestGroupIdx :=
                groupTimes b1 ! smallestGroupIdx + duration_or_default prevTimings testName]\<rparr>)"

fun balance_groups ::
  "int \<Rightarrow> (string \<rightharpoonup> 'a) \<Rightarrow> ('a::{linorder,zero,one,plus}) balance \<Rightarrow> string list \<Rightarrow> 'a balance" where
  "balance_groups groupTotal prevTimings b [] = b"
| "balance_groups groupTotal prevTimings b (testName # rest) =
     balance_groups groupTotal prevTimings (assign_test groupTotal prevTimings b testName) rest"

text \<open>
  \<^verbatim>\<open>Math.ceil(testNames.length / groupTotal)\<close>. For \<open>groupTotal = 0\<close> the quotient is
  \<^verbatim>\<open>Infinity\<close> or \<^verbatim>\<open>NaN\<close> and every slice computed from it is empty; HOL's \<open>x / 0 = 0\<close> gives
  the same empty slices.
\<close>

definition numPerGroup :: "nat \<Rightarrow> int \<Rightarrow> int" where
  "numPerGroup len groupTotal = \<lceil>real len / real_of_int groupTotal\<rceil>"

text \<open>
  The identifiers of the caller's group. \<open>groupPos\<close> and \<open>groupTotal\<close> are the integers
  that \<^verbatim>\<open>parseInt\<close> reads from the group argument (an argument that does not parse gives
  \<^verbatim>\<open>NaN\<close> and is not covered). \<open>prevTimings\<close> is \<open>None\<close> when no historical data was
  loaded. The result \<open>None\<close> is \<^verbatim>\<open>undefined\<close> (\<^verbatim>\<open>groups[curGroupIdx]\<close> outside the
  array), on which the next statement of \<^verbatim>\<open>main\<close>, \<^verbatim>\<open>testNames.length\<close>, throws.
\<close>

definition select_group ::
  "(string \<rightharpoonup> ('a::{linorder,zero,one,plus})) option \<Rightarrow> int \<Rightarrow> int \<Rightarrow> string list \<Rightarrow> string list option" where
  "select_group prevTimings groupPos groupTotal testNames =
     (case prevTimings of
        Some timings \<Rightarrow>
          (let b = balance_groups groupTotal timings initial_balance testNames;
               curGroupIdx = groupPos - 1
           in js_index (groups b) curGroupIdx)
      | None \<Rightarrow>
          (let n = numPerGroup (length testNames) groupTotal;
               offset = (groupPos - 1) * n
           in Some (js_slice testNames offset (offset + n))))"

text \<open>The identifiers a group runs: none when the selection is \<^verbatim>\<open>undefined\<close>.\<close>

definition group_members ::
  "(string \<rightharpoonup> ('a::{linorder,zero,one,plus})) option \<Rightarrow> int \<Rightarrow> string list \<Rightarrow> int \<Rightarrow> string list" where
  "group_members prevTimings groupTotal testNames groupPos =
     (case select_group prevTimings groupPos groupTotal testNames of
        None \<Rightarrow> []
      | Some g \<Rightarrow> g)"

subsection \<open>Views of the partitioner's state used in the statements\<close>

text \<open>
  The accumulated duration and the identifiers of group \<open>i\<close> (0-based); a group that the
  lazy creation has not reached yet is empty and has duration 0.
\<close>

definition group_time :: "('a::zero) balance \<Rightarrow> nat \<Rightarrow> 'a" where
  "group_time b i = (if i < length (groupTimes b) then groupTimes b ! i else 0)"

definition group_ids :: "'a balance \<Rightarrow> nat \<Rightarrow> string list" where
  "group_ids b i = (if i < length (groups b) then groups b ! i else [])"

text \<open>The arrays with every group up to \<open>groupTotal\<close> created.\<close>

definition pad_groups :: "int \<Rightarrow> ('a::zero) balance \<Rightarrow> 'a balance" where
  "pad_groups groupTotal b =
     b\<lparr>groups := groups b @ replicate (nat groupTotal - length (groups b)) [],
       groupTimes := groupTimes b @ replicate (nat groupTotal - length (groupTimes b)) 0\<rparr>"

text \<open>
  What holds of the two arrays throughout: they have the same length, group 0 exists,
  and no group beyond \<open>groupTotal\<close> is created.
\<close>

definition balance_ok :: "int \<Rightarrow> 'a balance \<Rightarrow> bool" where
  "balance_ok groupTotal b \<longleftrightarrow>
     length (groups b) = length (groupTimes b) \<and> 1 \<le> length (groups b) \<and>
     length (groups b) \<le> max 1 (nat groupTotal)"

text \<open>
  The duration as the specification words it: the recorded duration, and 1 only when
  none is recorded.
\<close>

definition recorded_or_one :: "(string \<rightharpoonup> 'a::one) \<Rightarrow> string \<Rightarrow> 'a" where
  "recorded_or_one prevTimings testName =
     (case prevTimings testName of None \<Rightarrow> 1 | Some d \<Rightarrow> d)"

subsection \<open>Running one test (\<^verbatim>\<open>runTest\<close> and the body of \<^verbatim>\<open>testNames.map\<close>)\<close>

text \<open>
  The settings \<^verbatim>\<open>main\<close> reads from the command line and the environment. Node's
  \<^verbatim>\<open>path.dirname\<close> and \<^verbatim>\<open>path.join\<close> are not part of the runner; they are parameters
  of the model, as is \<^verbatim>\<open>__dirname\<close>.
\<close>

record config =
  hideOutput :: bool
  isTestJob :: bool
  shouldContinueTestsOnError :: bool
  skipRetryTestManifest :: "string list"
  originalRetries :: nat
  concurrency :: nat
  GROUP :: string
  ENDGROUP :: string
  dirname_root :: string
  path_dirname :: "string \<Rightarrow> string"
  path_join :: "string \<Rightarrow> string \<Rightarrow> string"

text \<open>
  What the outside world does to one test. A child process run: the chunks that its
  \<^verbatim>\<open>data\<close> events deliver before the \<^verbatim>\<open>exit\<close> handler prints (with the stream they came
  from, in the order they arrive), the code and signal of its \<^verbatim>\<open>exit\<close> event (\<open>None\<close> is
  \<^verbatim>\<open>null\<close>), and the milliseconds between spawn and exit.
\<close>

datatype stream_tag = stdout | stderr

record child_run =
  chunks :: "(stream_tag \<times> string) list"
  exit_code :: "int option"
  exit_signal :: "string option"
  elapsed :: int

text \<open>
  The environment of one test: the run of its \<open>i\<close>-th attempt, whether
  \<^verbatim>\<open>git clean\<close> after the \<open>i\<close>-th attempt succeeds, and the content of the results file
  (\<open>None\<close> when reading or parsing it throws).
\<close>

record test_env =
  attempt :: "nat \<Rightarrow> child_run"
  clean_ok :: "nat \<Rightarrow> bool"
  results_json :: "string option"

text \<open>The three permit pools: \<^verbatim>\<open>sema\<close>, the entries of \<^verbatim>\<open>directorySemas\<close>, \<^verbatim>\<open>outputSema\<close>.\<close>

datatype sema = Global | Directory string | Output

datatype message =
    SkippingRetry string
  | Starting string nat nat
  | Finished string nat nat int
  | CleaningAt string
  | FailedDue string "int option" "string option"
  | FailedToPass string nat
  | Continuing string
  | ResultHeader
  | TestOutput string
  | ResultFooter
  | FailedToLoad

text \<open>What a worker does, in program order.\<close>

datatype event =
    Acquire sema
  | Release sema
  | Spawn string bool bool
  | StdoutWrite string
  | RemoveTrace string
  | TimingsPush string int
  | Exec string
  | ConsoleLog message
  | ConsoleError message
  | KillChildren
  | CleanUpAndExit nat

datatype run_result = Resolved int | Rejected "int option" "string option" string

text \<open>\<^verbatim>\<open>code !== 0 || signal !== null\<close> in the \<^verbatim>\<open>exit\<close> handler.\<close>

definition failed :: "child_run \<Rightarrow> bool" where
  "failed r \<longleftrightarrow> exit_code r \<noteq> Some 0 \<or> exit_signal r \<noteq> None"

text \<open>
  The block printed for a failed attempt when output is hidden: acquire the print
  permit, write the start marker, the buffered chunks, the end marker, release.
\<close>

definition output_block :: "config \<Rightarrow> string \<Rightarrow> (stream_tag \<times> string) list \<Rightarrow> event list" where
  "output_block cfg test outputChunks =
     [Acquire Output, StdoutWrite (GROUP cfg @ test @ '' output\<newline>'')]
     @ map (\<lambda>(tag, chunk). StdoutWrite chunk) outputChunks
     @ [StdoutWrite (''end of '' @ test @ '' output\<newline>'' @ ENDGROUP cfg @ ''\<newline>''),
        Release Output]"

text \<open>
  \<^verbatim>\<open>runTest(test, isFinalRun, isRetry)\<close>: the events of the attempt and how its promise
  settles. \<^verbatim>\<open>handleOutput\<close> buffers a chunk when output is hidden and writes it at once
  otherwise, so \<^verbatim>\<open>outputChunks\<close> is empty in debug mode.
\<close>

definition runTest :: "config \<Rightarrow> string \<Rightarrow> bool \<Rightarrow> bool \<Rightarrow> child_run \<Rightarrow> event list \<times> run_result" where
  "runTest cfg test isFinalRun isRetry r =
     (let outputChunks = (if hideOutput cfg then chunks r else []);
          streamed = (if hideOutput cfg then [] else map (\<lambda>(tag, chunk). StdoutWrite chunk) (chunks r))
      in if failed r
         then (Spawn test isFinalRun isRetry # streamed
                 @ (if hideOutput cfg then output_block cfg test outputChunks else []),
               Rejected (exit_code r) (exit_signal r) (concat (map snd outputChunks)))
         else (Spawn test isFinalRun isRetry # streamed @ [RemoveTrace test],
               Resolved (elapsed r)))"

text \<open>
  \<^verbatim>\<open>skipRetryTestManifest.find((t) => t.includes(test))\<close>: the first entry that contains
  the identifier, \<open>None\<close> for \<^verbatim>\<open>undefined\<close>. The result is used as a condition; a string is
  truthy unless it is empty.
\<close>

definition find_skip_entry :: "string list \<Rightarrow> string \<Rightarrow> string option" where
  "find_skip_entry manifest test = List.find (\<lambda>t. js_includes t test) manifest"

definition shouldSkipRetries :: "config \<Rightarrow> string \<Rightarrow> bool" where
  "shouldSkipRetries cfg test =
     (case find_skip_entry (skipRetryTestManifest cfg) test of
        None \<Rightarrow> False
      | Some t \<Rightarrow> t \<noteq> [])"

text \<open>\<^verbatim>\<open>const numRetries = shouldSkipRetries ? 0 : originalRetries\<close>\<close>

definition numRetries :: "config \<Rightarrow> string \<Rightarrow> nat" where
  "numRetries cfg test = (if shouldSkipRetries cfg test then 0 else originalRetries cfg)"

text \<open>
  The directory that is cleaned: the directory of the test, or its parent when the
  directory's path ends in \<^verbatim>\<open>/test\<close> or \<^verbatim>\<open>\test\<close>.
\<close>

definition recovery_dir :: "config \<Rightarrow> string \<Rightarrow> string" where
  "recovery_dir cfg test =
     (let testDir = path_dirname cfg (path_join cfg (dirname_root cfg) test)
      in if endsWith testDir ''/test'' \<or> endsWith testDir (CHR 0x5C # ''test'')
         then path_join cfg testDir ''../''
         else testDir)"

text \<open>
  The \<^verbatim>\<open>try\<close> block of the recovery: \<^verbatim>\<open>git clean\<close>, then \<^verbatim>\<open>git checkout\<close>. When
  \<^verbatim>\<open>git clean\<close> throws the checkout is skipped; the \<^verbatim>\<open>catch\<close> is empty either way. The
  directory is put between double quotes in both commands.
\<close>

definition quoted :: "string \<Rightarrow> string" where
  "quoted s = CHR 0x22 # s @ [CHR 0x22]"

definition recover :: "config \<Rightarrow> string \<Rightarrow> bool \<Rightarrow> event list" where
  "recover cfg test cleaned =
     (let testDir = recovery_dir cfg test
      in [ConsoleLog (CleaningAt testDir),
          Exec (''git clean -fdx '' @ quoted testDir)]
         @ (if cleaned then [Exec (''git checkout '' @ quoted testDir)] else []))"

text \<open>
  The loop \<^verbatim>\<open>for (let i = 0; i < numRetries + 1; i++)\<close> from iteration \<open>i\<close> on: its events
  and the final value of \<^verbatim>\<open>passed\<close>.
\<close>

function retry_loop :: "config \<Rightarrow> string \<Rightarrow> test_env \<Rightarrow> nat \<Rightarrow> event list \<times> bool" where
  "retry_loop cfg test env i =
     (if i < numRetries cfg test + 1 then
        (case runTest cfg test
                (shouldSkipRetries cfg test \<or> i = numRetries cfg test)
                (shouldSkipRetries cfg test \<or> i > 0)
                (attempt env i) of
           (evs, Resolved time) \<Rightarrow>
             (ConsoleLog (Starting test i (numRetries cfg test)) # evs
                @ [TimingsPush test time,
                   ConsoleLog (Finished test i (numRetries cfg test) time)],
              True)
         | (evs, Rejected code signal out) \<Rightarrow>
             (let handler =
                    (if i < numRetries cfg test then recover cfg test (clean_ok env i)
                     else [ConsoleError (FailedDue test code signal)]);
                  (rest, passed) = retry_loop cfg test env (Suc i)
              in (ConsoleLog (Starting test i (numRetries cfg test)) # evs @ handler @ rest,
                  passed)))
      else ([], False))"
  by pat_completeness auto
termination
  by (relation "measure (\<lambda>(cfg, test, env, i). numRetries cfg test + 1 - i)") auto

text \<open>What follows the loop when the test did not pass.\<close>

definition after_failure :: "config \<Rightarrow> string \<Rightarrow> event list" where
  "after_failure cfg test =
     ConsoleError (FailedToPass test (numRetries cfg test))
     # (if \<not> shouldContinueTestsOnError cfg
        then [KillChildren, CleanUpAndExit 1]
        else [ConsoleLog (Continuing test)])"

text \<open>The block that prints the results file for tooling.\<close>

definition emit_results :: "config \<Rightarrow> test_env \<Rightarrow> event list" where
  "emit_results cfg env =
     (case results_json env of
        None \<Rightarrow> [ConsoleLog FailedToLoad]
      | Some obj \<Rightarrow>
          [Acquire Output]
          @ (if GROUP cfg \<noteq> [] then [ConsoleLog ResultHeader] else [])
          @ [ConsoleLog (TestOutput obj)]
          @ (if ENDGROUP cfg \<noteq> [] then [ConsoleLog ResultFooter] else [])
          @ [Release Output])"

text \<open>
  What the callback of \<^verbatim>\<open>testNames.map\<close> does between \<^verbatim>\<open>await sema.acquire()\<close> and
  \<^verbatim>\<open>sema.release()\<close>: the message about skipped retries, the loop, what follows a failure,
  the results for tooling.
\<close>

definition worker_body :: "config \<Rightarrow> string \<Rightarrow> test_env \<Rightarrow> event list" where
  "worker_body cfg test env =
     (case retry_loop cfg test env 0 of
        (loop, passed) \<Rightarrow>
          (if shouldSkipRetries cfg test then [ConsoleLog (SkippingRetry test)] else [])
          @ loop
          @ (if \<not> passed then after_failure cfg test else [])
          @ (if (\<not> passed \<or> shouldContinueTestsOnError cfg) \<and> isTestJob cfg
             then emit_results cfg env else []))"

text \<open>
  The callback of \<^verbatim>\<open>testNames.map\<close> for one test, given the directory permit pool it
  found or created (\<open>dirSema\<close>, \<open>None\<close> for \<^verbatim>\<open>undefined\<close>): all its events and whether the
  test passed.
\<close>

definition worker :: "config \<Rightarrow> string \<Rightarrow> string option \<Rightarrow> test_env \<Rightarrow> event list \<times> bool" where
  "worker cfg test dirSema env =
     ((case dirSema of None \<Rightarrow> [] | Some d \<Rightarrow> [Acquire (Directory d)])
      @ [Acquire Global]
      @ worker_body cfg test env
      @ [Release Global]
      @ (case dirSema of None \<Rightarrow> [] | Some d \<Rightarrow> [Release (Directory d)]),
      snd (retry_loop cfg test env 0))"

text \<open>
  The synchronous start of the callbacks, in the order of \<^verbatim>\<open>testNames\<close>: each looks its
  directory up in \<^verbatim>\<open>directorySemas\<close> and, for a test under \<^verbatim>\<open>test/integration\<close> whose
  directory has no pool yet, creates one. \<open>created\<close> are the keys of the map.
\<close>

fun assign_dirSemas :: "config \<Rightarrow> string list \<Rightarrow> string list \<Rightarrow> (string \<times> string option) list" where
  "assign_dirSemas cfg created [] = []"
| "assign_dirSemas cfg created (test # rest) =
     (let dirName = path_dirname cfg test;
          found = (if dirName \<in> set created then Some dirName else None)
      in if startsWith test ''test/integration'' \<and> found = None
         then (test, Some dirName) # assign_dirSemas cfg (dirName # created) rest
         else (test, found) # assign_dirSemas cfg created rest)"

text \<open>The events of all workers, one list per test.\<close>

definition workers :: "config \<Rightarrow> (string \<Rightarrow> test_env) \<Rightarrow> string list \<Rightarrow> event list list" where
  "workers cfg envs testNames =
     map (\<lambda>(test, dirSema). fst (worker cfg test dirSema (envs test)))
       (assign_dirSemas cfg [] testNames)"

subsection \<open>Views of a worker's events used in the statements\<close>

text \<open>The events of attempt \<open>i\<close> itself, as \<^verbatim>\<open>runTest\<close> is called in the loop.\<close>

definition attempt_events :: "config \<Rightarrow> string \<Rightarrow> test_env \<Rightarrow> nat \<Rightarrow> event list" where
  "attempt_events cfg test env i =
     fst (runTest cfg test
            (shouldSkipRetries cfg test \<or> i = numRetries cfg test)
            (shouldSkipRetries cfg test \<or> i > 0)
            (attempt env i))"

text \<open>
  An iteration whose attempt fails: the attempt, then the recovery when the attempt is
  not the last one, and the error message when it is.
\<close>

definition failed_iteration :: "config \<Rightarrow> string \<Rightarrow> test_env \<Rightarrow> nat \<Rightarrow> event list" where
  "failed_iteration cfg test env i =
     ConsoleLog (Starting test i (numRetries cfg test)) # attempt_events cfg test env i
     @ (if i < numRetries cfg test
        then [ConsoleLog (CleaningAt (recovery_dir cfg test)),
              Exec (''git clean -fdx '' @ quoted (recovery_dir cfg test))]
             @ (if clean_ok env i
                then [Exec (''git checkout '' @ quoted (recovery_dir cfg test))] else [])
        else [ConsoleError (FailedDue test (exit_code (attempt env i)) (exit_signal (attempt env i)))])"

text \<open>An iteration whose attempt passes: the attempt, the timing record, the message.\<close>

definition passing_iteration :: "config \<Rightarrow> string \<Rightarrow> test_env \<Rightarrow> nat \<Rightarrow> event list" where
  "passing_iteration cfg test env i =
     ConsoleLog (Starting test i (numRetries cfg test)) # attempt_events cfg test env i
     @ [TimingsPush test (elapsed (attempt env i)),
        ConsoleLog (Finished test i (numRetries cfg test) (elapsed (attempt env i)))]"

text \<open>The first attempt within the budget that passes, if there is one.\<close>

definition first_pass :: "config \<Rightarrow> string \<Rightarrow> test_env \<Rightarrow> nat option" where
  "first_pass cfg test env =
     List.find (\<lambda>i. \<not> failed (attempt env i)) [0..<numRetries cfg test + 1]"

fun is_spawn :: "event \<Rightarrow> bool" where
  "is_spawn (Spawn test isFinalRun isRetry) = True"
| "is_spawn e = False"

fun is_exec :: "event \<Rightarrow> bool" where
  "is_exec (Exec cmd) = True"
| "is_exec e = False"

fun is_write :: "event \<Rightarrow> bool" where
  "is_write (StdoutWrite chunk) = True"
| "is_write e = False"

text \<open>The entries pushed onto \<^verbatim>\<open>timings\<close>, in order.\<close>

fun pushed_timings :: "event list \<Rightarrow> (string \<times> int) list" where
  "pushed_timings [] = []"
| "pushed_timings (TimingsPush file time # es) = (file, time) # pushed_timings es"
| "pushed_timings (e # es) = pushed_timings es"

subsection \<open>The timing ledger and the exit code\<close>

text \<open>
  \<^verbatim>\<open>for (const timing of timings) curTimings[timing.file] = timing.time / 1000\<close>: the
  ledger of the current run, in seconds.
\<close>

fun record_timings :: "(string \<rightharpoonup> real) \<Rightarrow> (string \<times> int) list \<Rightarrow> (string \<rightharpoonup> real)" where
  "record_timings curTimings [] = curTimings"
| "record_timings curTimings ((file, time) # rest) =
     record_timings (curTimings(file \<mapsto> real_of_int time / 1000)) rest"

fun exit_calls_of :: "event list \<Rightarrow> nat list" where
  "exit_calls_of [] = []"
| "exit_calls_of (CleanUpAndExit code # es) = code # exit_calls_of es"
| "exit_calls_of (e # es) = exit_calls_of es"






subsection \<open>Concrete inputs for the examples\<close>

text \<open>
  Path functions for the examples: the text before the last \<^verbatim>\<open>/\<close>, and joining with
  \<^verbatim>\<open>/\<close> (\<^verbatim>\<open>../\<close> goes to the parent). They agree with Node on the paths used below.
\<close>

definition example_dirname :: "string \<Rightarrow> string" where
  "example_dirname p = rev (tl (dropWhile (\<lambda>c. c \<noteq> CHR ''/'') (rev p)))"

definition example_join :: "string \<Rightarrow> string \<Rightarrow> string" where
  "example_join a b = (if b = ''../'' then example_dirname a @ ''/'' else a @ ''/'' @ b)"

definition example_config :: config where
  "example_config =
     \<lparr>hideOutput = True, isTestJob = False, shouldContinueTestsOnError = False,
      skipRetryTestManifest = [], originalRetries = 1, concurrency = 2,
      GROUP = [], ENDGROUP = [], dirname_root = ''/repo'',
      path_dirname = example_dirname, path_join = example_join\<rparr>"

definition passing_run :: child_run where
  "passing_run = \<lparr>chunks = [(stdout, ''ok'')], exit_code = Some 0, exit_signal = None,
                   elapsed = 1500\<rparr>"

definition failing_run :: child_run where
  "failing_run = \<lparr>chunks = [(stdout, ''boom''), (stderr, ''trace'')], exit_code = Some 1,
                   exit_signal = None, elapsed = 900\<rparr>"

definition always_failing :: test_env where
  "always_failing = \<lparr>attempt = (\<lambda>i. failing_run), clean_ok = (\<lambda>i. True), results_json = None\<rparr>"

definition passes_on_retry :: test_env where
  "passes_on_retry = \<lparr>attempt = (\<lambda>i. if i = 0 then failing_run else passing_run),
                       clean_ok = (\<lambda>i. False), results_json = None\<rparr>"

subsection \<open>Workers running concurrently (\<^verbatim>\<open>Promise.all(testNames.map(...))\<close>)\<close>

text \<open>
  The state of a run: what each worker still has to do, the free permits of every pool,
  and what has been done so far, oldest first, each event with the index of the worker
  that did it.
\<close>

record sched =
  pending :: "event list list"
  free :: "sema \<Rightarrow> nat"
  history :: "(nat \<times> event) list"

text \<open>
  Modelled from the spec: the permit pools (\<^verbatim>\<open>Sema\<close> of the library async-sema, which is
  not part of the runner) are counting gates that bound the simultaneous holders.
  \<^verbatim>\<open>acquire\<close> completes only when a permit is free and takes it, \<^verbatim>\<open>release\<close> gives one
  back; every other event leaves the permits alone. \<open>None\<close>: the event cannot happen now.
\<close>

fun permits_after :: "(sema \<Rightarrow> nat) \<Rightarrow> event \<Rightarrow> (sema \<Rightarrow> nat) option" where
  "permits_after f (Acquire x) = (if 0 < f x then Some (f(x := f x - 1)) else None)"
| "permits_after f (Release x) = Some (f(x := f x + 1))"
| "permits_after f e = Some f"

text \<open>
  Worker \<open>w\<close> takes its next step. JavaScript runs a callback up to its next \<^verbatim>\<open>await\<close>
  without interruption; here every event is a step of its own and any worker whose next
  event can happen may go next, which covers every order the callbacks can run in.
\<close>

definition advance :: "sched \<Rightarrow> nat \<Rightarrow> sched option" where
  "advance s w =
     (if w < length (pending s) then
        (case pending s ! w of
           [] \<Rightarrow> None
         | e # rest \<Rightarrow>
             (case permits_after (free s) e of
                None \<Rightarrow> None
              | Some f \<Rightarrow>
                  Some \<lparr>pending = (pending s)[w := rest], free = f,
                        history = history s @ [(w, e)]\<rparr>))
      else None)"

text \<open>A schedule names the worker of each step; \<open>None\<close> when some step cannot happen.\<close>

fun run :: "sched \<Rightarrow> nat list \<Rightarrow> sched option" where
  "run s [] = Some s"
| "run s (w # schedule) = (case advance s w of None \<Rightarrow> None | Some s' \<Rightarrow> run s' schedule)"

text \<open>
  \<^verbatim>\<open>new Sema(concurrency)\<close>, \<^verbatim>\<open>new Sema(1)\<close> for each directory pool and for
  \<^verbatim>\<open>outputSema\<close>. (A directory pool is created when the first test that needs it starts;
  it has its one permit from then on.)
\<close>

definition initial_free :: "config \<Rightarrow> sema \<Rightarrow> nat" where
  "initial_free cfg x = (case x of Global \<Rightarrow> concurrency cfg | Directory d \<Rightarrow> 1 | Output \<Rightarrow> 1)"

definition initial_sched :: "config \<Rightarrow> (string \<Rightarrow> test_env) \<Rightarrow> string list \<Rightarrow> sched" where
  "initial_sched cfg envs testNames =
     \<lparr>pending = workers cfg envs testNames, free = initial_free cfg, history = []\<rparr>"

text \<open>
  Worker \<open>w\<close> holds a permit of pool \<open>x\<close> after the history \<open>h\<close>: it has acquired \<open>x\<close> more
  often than it has released it.
\<close>

definition holds :: "(nat \<times> event) list \<Rightarrow> nat \<Rightarrow> sema \<Rightarrow> bool" where
  "holds h w x \<longleftrightarrow> count_list h (w, Release x) < count_list h (w, Acquire x)"

text \<open>The events of worker \<open>w\<close> in a history.\<close>

definition events_of :: "nat \<Rightarrow> (nat \<times> event) list \<Rightarrow> event list" where
  "events_of w h = map snd (filter (\<lambda>p. fst p = w) h)"

text \<open>Acquisitions minus releases of pool \<open>x\<close> in a list of events.\<close>

definition balance_of :: "sema \<Rightarrow> event list \<Rightarrow> int" where
  "balance_of x es = int (count_list es (Acquire x)) - int (count_list es (Release x))"

text \<open>
  A list of events uses pool \<open>x\<close> in brackets: starting with the permit held or not
  (\<open>held\<close>), it acquires only when it does not hold and releases only when it holds. The
  result is whether the permit is held at the end, \<open>None\<close> when the brackets are broken.
\<close>

fun brackets :: "sema \<Rightarrow> bool \<Rightarrow> event list \<Rightarrow> bool option" where
  "brackets x held [] = Some held"
| "brackets x held (e # es) =
     (if e = Acquire x then (if held then None else brackets x True es)
      else if e = Release x then (if held then brackets x False es else None)
      else brackets x held es)"

text \<open>Every \<^verbatim>\<open>process.stdout.write\<close> of a list of events happens with the print permit held.\<close>

fun writes_guarded :: "bool \<Rightarrow> event list \<Rightarrow> bool" where
  "writes_guarded held [] = True"
| "writes_guarded held (e # es) =
     (if e = Acquire Output then writes_guarded True es
      else if e = Release Output then writes_guarded False es
      else (is_write e \<longrightarrow> held) \<and> writes_guarded held es)"

text \<open>
  A state follows the programs \<open>programs\<close> (one list of events per worker): what a worker
  has done and what it still has to do make up its program, and only these workers act.
\<close>

definition follows :: "event list list \<Rightarrow> sched \<Rightarrow> bool" where
  "follows programs s \<longleftrightarrow>
     length (pending s) = length programs \<and>
     (\<forall>w<length programs. events_of w (history s) @ pending s ! w = programs ! w) \<and>
     (\<forall>p\<in>set (history s). fst p < length programs)"

text \<open>The free permits account for the history: permits out plus permits free is constant.\<close>

definition permits_ok :: "(sema \<Rightarrow> nat) \<Rightarrow> sched \<Rightarrow> bool" where
  "permits_ok f0 s \<longleftrightarrow>
     (\<forall>x. int (free s x) + balance_of x (map snd (history s)) = int (f0 x))"

text \<open>A list of events touches no pool but the print permit.\<close>

definition only_output :: "event list \<Rightarrow> bool" where
  "only_output es \<longleftrightarrow> (\<forall>e\<in>set es. \<forall>x. e = Acquire x \<or> e = Release x \<longrightarrow> x = Output)"

section \<open>Properties\<close>

subsection \<open>Auxiliary facts about lists\<close>

lemma js_slice_take_drop:
  assumes "0 \<le> start" and "0 \<le> n"
  shows "js_slice xs start (start + n) = take (nat n) (drop (nat start) xs)"
proof (cases "start \<le> int (length xs)")
  case True
  show ?thesis
  proof (cases "start + n \<le> int (length xs)")
    case True
    with assms \<open>start \<le> int (length xs)\<close> show ?thesis
      by (simp add: js_slice_def Let_def min_def)
  next
    case False
    with assms \<open>start \<le> int (length xs)\<close> show ?thesis
      by (simp add: js_slice_def Let_def min_def)
  qed
next
  case False
  with assms show ?thesis
    by (simp add: js_slice_def Let_def min_def)
qed

lemma concat_chunks:
  "concat (map (\<lambda>i. take k (drop (i * k) xs)) [0..<m]) = take (m * k) xs"
proof (induction m)
  case 0
  show ?case by simp
next
  case (Suc m)
  have "take (m * k + k) xs = take (m * k) xs @ take k (drop (m * k) xs)"
    by (rule take_add)
  with Suc show ?case by (simp add: add.commute)
qed

lemma upto_from_one: "[1..int n] = map (\<lambda>i. int i + 1) [0..<n]"
proof (induction n)
  case 0
  show ?case by simp
next
  case (Suc n)
  have "[1..int (Suc n)] = [1..int n] @ [int n + 1]"
    using upto_rec2 [of 1 "int (Suc n)"] by (simp add: add.commute)
  with Suc show ?case by simp
qed

lemma mset_concat_push:
  "k < length xss \<Longrightarrow> mset (concat (xss[k := xss ! k @ [t]])) = add_mset t (mset (concat xss))"
proof (induction xss arbitrary: k)
  case Nil
  then show ?case by simp
next
  case (Cons xs xss)
  then show ?case by (cases k) simp_all
qed

subsection \<open>The group partitioner\<close>

declare scan_groups.simps [simp del]

text \<open>
  The inner loop creates the missing groups and returns the first index of smallest
  time; \<open>k\<close> and \<open>s\<close> are that index and time over the groups below \<open>i\<close>.
\<close>

lemma ensure_group_facts:
  assumes "length (groups b) = length (groupTimes b)" and "i \<le> length (groups b)" and "int i < gt"
  shows "length (groups (ensure_group i b)) = length (groupTimes (ensure_group i b))"
    and "Suc i \<le> length (groups (ensure_group i b))"
    and "pad_groups gt (ensure_group i b) = pad_groups gt b"
    and "\<forall>j<length (groups b). groupTimes (ensure_group i b) ! j = groupTimes b ! j"
    and "\<forall>j<i. groupTimes (ensure_group i b) ! j = groupTimes b ! j"
proof -
  show "length (groups (ensure_group i b)) = length (groupTimes (ensure_group i b))"
    using assms by (simp add: ensure_group_def js_set_def)
  show "Suc i \<le> length (groups (ensure_group i b))"
    using assms by (simp add: ensure_group_def js_set_def)
  show "\<forall>j<length (groups b). groupTimes (ensure_group i b) ! j = groupTimes b ! j"
    using assms by (simp add: ensure_group_def js_set_def nth_append)
  then show "\<forall>j<i. groupTimes (ensure_group i b) ! j = groupTimes b ! j"
    using assms by simp
  show "pad_groups gt (ensure_group i b) = pad_groups gt b"
  proof (cases "i < length (groups b)")
    case True
    then show ?thesis by (simp add: ensure_group_def)
  next
    case False
    with assms have eq: "length (groups b) = i" "length (groupTimes b) = i" by simp_all
    from assms have "nat gt - i = Suc (nat gt - Suc i)" by linarith
    with False eq show ?thesis
      by (simp add: ensure_group_def js_set_def pad_groups_def)
  qed
qed

lemma scan_groups_spec:
  assumes "length (groups b) = length (groupTimes b)" and "i \<le> length (groups b)"
    and "k < i" and "s = groupTimes b ! k"
    and "\<forall>j<i. s \<le> groupTimes b ! j" and "\<forall>j<k. s < groupTimes b ! j"
  shows "case scan_groups gt i b s k of (b', s', k') \<Rightarrow>
           b' = pad_groups gt b \<and> k' < max i (nat gt) \<and> s' = groupTimes b' ! k' \<and>
           (\<forall>j<max i (nat gt). s' \<le> groupTimes b' ! j) \<and> (\<forall>j<k'. s' < groupTimes b' ! j)"
  using assms
proof (induction gt i b s k rule: scan_groups.induct)
  case (1 gt i b s k)
  show ?case
  proof (cases "int i < gt")
    case False
    then have "nat gt \<le> i" by simp
    with 1 False show ?thesis
      by (subst scan_groups.simps) (simp add: pad_groups_def max_def)
  next
    case True
    define b1 where "b1 = ensure_group i b"
    define time where "time = groupTimes b1 ! i"
    note f = ensure_group_facts [OF "1.prems"(1,2) True, folded b1_def]
    have mx: "max (Suc i) (nat gt) = max i (nat gt)" using True by simp
    show ?thesis
    proof (cases "time < s")
      case lt: True
      have "case scan_groups gt (Suc i) b1 time i of (b', s', k') \<Rightarrow>
           b' = pad_groups gt b1 \<and> k' < max (Suc i) (nat gt) \<and> s' = groupTimes b' ! k' \<and>
           (\<forall>j<max (Suc i) (nat gt). s' \<le> groupTimes b' ! j) \<and> (\<forall>j<k'. s' < groupTimes b' ! j)"
      proof (rule "1.IH"(1) [OF True b1_def time_def lt])
        show "length (groups b1) = length (groupTimes b1)" by (rule f(1))
        show "Suc i \<le> length (groups b1)" by (rule f(2))
        show "i < Suc i" by simp
        show "time = groupTimes b1 ! i" by (rule time_def)
        show "\<forall>j<Suc i. time \<le> groupTimes b1 ! j"
          using lt "1.prems"(5) f(5) time_def by (auto simp: less_Suc_eq)
        show "\<forall>j<i. time < groupTimes b1 ! j"
          using lt "1.prems"(5) f(5) by auto
      qed
      moreover have "scan_groups gt i b s k = scan_groups gt (Suc i) b1 time i"
        using True lt by (subst scan_groups.simps) (simp add: b1_def [symmetric] time_def [symmetric] Let_def)
      ultimately show ?thesis by (simp add: f(3) mx)
    next
      case ge: False
      have "case scan_groups gt (Suc i) b1 s k of (b', s', k') \<Rightarrow>
           b' = pad_groups gt b1 \<and> k' < max (Suc i) (nat gt) \<and> s' = groupTimes b' ! k' \<and>
           (\<forall>j<max (Suc i) (nat gt). s' \<le> groupTimes b' ! j) \<and> (\<forall>j<k'. s' < groupTimes b' ! j)"
      proof (rule "1.IH"(2) [OF True b1_def time_def ge])
        show "length (groups b1) = length (groupTimes b1)" by (rule f(1))
        show "Suc i \<le> length (groups b1)" by (rule f(2))
        show "k < Suc i" using "1.prems"(3) by simp
        show "s = groupTimes b1 ! k" using "1.prems"(3,4) f(5) by simp
        show "\<forall>j<Suc i. s \<le> groupTimes b1 ! j"
          using ge "1.prems"(5) f(5) time_def by (auto simp: less_Suc_eq)
        show "\<forall>j<k. s < groupTimes b1 ! j"
          using "1.prems"(3,6) f(5) by auto
      qed
      moreover have "scan_groups gt i b s k = scan_groups gt (Suc i) b1 s k"
        using True ge by (subst scan_groups.simps) (simp add: b1_def [symmetric] time_def [symmetric] Let_def)
      ultimately show ?thesis by (simp add: f(3) mx)
    qed
  qed
qed


lemma pad_groups_nth:
  assumes "length (groups b) = length (groupTimes b)"
  shows "j < max (length (groups b)) (nat gt) \<Longrightarrow> groupTimes (pad_groups gt b) ! j = group_time b j"
    and "j < max (length (groups b)) (nat gt) \<Longrightarrow> groups (pad_groups gt b) ! j = group_ids b j"
    and "length (groups (pad_groups gt b)) = max (length (groups b)) (nat gt)"
    and "length (groupTimes (pad_groups gt b)) = max (length (groups b)) (nat gt)"
    and "concat (groups (pad_groups gt b)) = concat (groups b)"
  using assms by (auto simp: pad_groups_def group_time_def group_ids_def nth_append)

lemma assign_test_spec:
  assumes ok: "balance_ok gt b"
  shows "\<exists>k<max 1 (nat gt).
           (\<forall>j<max 1 (nat gt). group_time b k \<le> group_time b j) \<and>
           (\<forall>j<k. group_time b k < group_time b j) \<and>
           assign_test gt pt b t =
             \<lparr>groups = (groups (pad_groups gt b))[k := group_ids b k @ [t]],
              groupTimes = (groupTimes (pad_groups gt b))[k := group_time b k + duration_or_default pt t]\<rparr>"
proof -
  from ok have len: "length (groups b) = length (groupTimes b)" and pos: "1 \<le> length (groups b)"
    and le: "length (groups b) \<le> max 1 (nat gt)"
    by (simp_all add: balance_ok_def)
  obtain b' s' k' where sc: "scan_groups gt 1 b (groupTimes b ! 0) 0 = (b', s', k')"
    by (cases "scan_groups gt 1 b (groupTimes b ! 0) 0") auto
  have "case scan_groups gt 1 b (groupTimes b ! 0) 0 of (b', s', k') \<Rightarrow>
           b' = pad_groups gt b \<and> k' < max 1 (nat gt) \<and> s' = groupTimes b' ! k' \<and>
           (\<forall>j<max 1 (nat gt). s' \<le> groupTimes b' ! j) \<and> (\<forall>j<k'. s' < groupTimes b' ! j)"
    by (rule scan_groups_spec) (use len pos in auto)
  with sc have b': "b' = pad_groups gt b" and k': "k' < max 1 (nat gt)"
    and s': "s' = groupTimes b' ! k'"
    and mn: "\<forall>j<max 1 (nat gt). s' \<le> groupTimes b' ! j" and fst: "\<forall>j<k'. s' < groupTimes b' ! j"
    by auto
  have mx: "max (length (groups b)) (nat gt) = max 1 (nat gt)" using pos le by arith
  have nth: "\<And>j. j < max 1 (nat gt) \<Longrightarrow> groupTimes b' ! j = group_time b j"
    "\<And>j. j < max 1 (nat gt) \<Longrightarrow> groups b' ! j = group_ids b j"
    using pad_groups_nth(1,2) [OF len, of _ gt] by (simp_all add: b' mx)
  have "assign_test gt pt b t =
      \<lparr>groups = (groups (pad_groups gt b))[k' := group_ids b k' @ [t]],
       groupTimes = (groupTimes (pad_groups gt b))[k' := group_time b k' + duration_or_default pt t]\<rparr>"
    using sc k' nth by (simp add: assign_test_def b' [symmetric])
  moreover have "\<forall>j<max 1 (nat gt). group_time b k' \<le> group_time b j"
    using mn s' k' nth by simp
  moreover have "\<forall>j<k'. group_time b k' < group_time b j"
    using fst s' k' nth by simp
  ultimately show ?thesis using k' by blast
qed

lemma assign_test_ok:
  assumes ok: "balance_ok gt b"
  shows "balance_ok gt (assign_test gt pt b t)"
    and "mset (concat (groups (assign_test gt pt b t))) = add_mset t (mset (concat (groups b)))"
proof -
  from ok have len: "length (groups b) = length (groupTimes b)" and pos: "1 \<le> length (groups b)"
    and le: "length (groups b) \<le> max 1 (nat gt)"
    by (simp_all add: balance_ok_def)
  have mx: "max (length (groups b)) (nat gt) = max 1 (nat gt)" using pos le by arith
  from assign_test_spec [OF ok, of pt t] obtain k where k: "k < max 1 (nat gt)"
    and eq: "assign_test gt pt b t =
             \<lparr>groups = (groups (pad_groups gt b))[k := group_ids b k @ [t]],
              groupTimes = (groupTimes (pad_groups gt b))[k := group_time b k + duration_or_default pt t]\<rparr>"
    by blast
  show "balance_ok gt (assign_test gt pt b t)"
    using pad_groups_nth(3,4) [OF len, of gt] by (simp add: eq balance_ok_def mx)
  have "groups (pad_groups gt b) ! k = group_ids b k"
    using pad_groups_nth(2) [OF len, of k gt] k by (simp add: mx)
  then have "mset (concat (groups (assign_test gt pt b t))) =
      add_mset t (mset (concat (groups (pad_groups gt b))))"
    using mset_concat_push [of k "groups (pad_groups gt b)" t] k pad_groups_nth(3) [OF len, of gt]
    by (simp add: eq mx)
  then show "mset (concat (groups (assign_test gt pt b t))) = add_mset t (mset (concat (groups b)))"
    by (simp add: pad_groups_nth(5) [OF len])
qed

lemma balance_groups_ok:
  "balance_ok gt b \<Longrightarrow> balance_ok gt (balance_groups gt pt b ts) \<and>
     mset (concat (groups (balance_groups gt pt b ts))) = mset (concat (groups b)) + mset ts"
  by (induction ts arbitrary: b) (simp_all add: assign_test_ok)

lemma initial_balance_ok: "balance_ok gt initial_balance"
  by (simp add: balance_ok_def initial_balance_def)

lemma balance_groups_append:
  "balance_groups gt pt b (xs @ ys) = balance_groups gt pt (balance_groups gt pt b xs) ys"
  by (induction xs arbitrary: b) simp_all


text \<open>
  The slices of width \<open>numPerGroup\<close> cover the identifiers.
\<close>

lemma numPerGroup_div: "numPerGroup n g = - (- int n div g)"
  using ceiling_divide_eq_div [of "int n" g, where ?'a = real] by (simp add: numPerGroup_def)

lemma numPerGroup_covers:
  assumes "1 \<le> g"
  shows "0 \<le> numPerGroup n g" and "int n \<le> g * numPerGroup n g"
proof -
  from assms have g: "0 < real_of_int g" by simp
  have "0 \<le> real n / real_of_int g" using g by simp
  then show "0 \<le> numPerGroup n g"
    unfolding numPerGroup_def by (simp add: ceiling_le_iff [symmetric] order_trans [OF _ le_of_int_ceiling])
  have "real n / real_of_int g \<le> of_int (numPerGroup n g)"
    unfolding numPerGroup_def by (rule le_of_int_ceiling)
  then have "real n \<le> real_of_int g * of_int (numPerGroup n g)"
    using g by (simp add: pos_divide_le_eq mult.commute)
  then have "real_of_int (int n) \<le> real_of_int (g * numPerGroup n g)" by simp
  then show "int n \<le> g * numPerGroup n g" by (simp only: of_int_le_iff)
qed

lemma slices_cover:
  assumes "1 \<le> g"
  shows "concat (map (\<lambda>p. js_slice xs ((p - 1) * numPerGroup (length xs) g)
           ((p - 1) * numPerGroup (length xs) g + numPerGroup (length xs) g)) [1..g]) = xs"
proof -
  define k where "k = nat (numPerGroup (length xs) g)"
  have k: "numPerGroup (length xs) g = int k"
    using numPerGroup_covers(1) [OF assms] by (simp add: k_def)
  have g: "[1..g] = map (\<lambda>i. int i + 1) [0..<nat g]"
    using upto_from_one [of "nat g"] assms by simp
  have sl: "js_slice xs (int i * int k) (int i * int k + int k) = take k (drop (i * k) xs)" for i
    using js_slice_take_drop [of "int i * int k" "int k" xs] by (simp add: nat_mult_distrib)
  have "int (length xs) \<le> g * int k"
    using numPerGroup_covers(2) [OF assms, of "length xs"] by (simp add: k)
  also have "\<dots> = int (nat g * k)" using assms by simp
  finally have "length xs \<le> nat g * k" by (simp only: of_nat_le_iff)
  then show ?thesis
    by (simp add: g k sl o_def concat_chunks)
qed

lemma concat_js_index:
  assumes "length xss \<le> n"
  shows "concat (map (\<lambda>i. case js_index xss (int i) of None \<Rightarrow> [] | Some g \<Rightarrow> g) [0..<n]) = concat xss"
proof -
  have split: "[0..<n] = [0..<length xss] @ [length xss..<n]"
    using assms by (metis le_add_diff_inverse upt_add_eq_append zero_le)
  have "map (\<lambda>i. case js_index xss (int i) of None \<Rightarrow> [] | Some g \<Rightarrow> g) [0..<length xss] = xss"
    by (rule nth_equalityI) (simp_all add: js_index_def)
  moreover have "concat (map (\<lambda>i. case js_index xss (int i) of None \<Rightarrow> [] | Some g \<Rightarrow> g) [length xss..<n]) = []"
    by (simp add: js_index_def)
  ultimately show ?thesis by (simp add: split)
qed

lemma one_group_only:
  "distinct (concat (map f ps)) \<Longrightarrow> distinct ps \<Longrightarrow> p \<in> set ps \<Longrightarrow> q \<in> set ps \<Longrightarrow>
     t \<in> set (f p) \<Longrightarrow> t \<in> set (f q) \<Longrightarrow> p = q"
  by (induction ps) auto

lemma members_cover:
  fixes prevTimings :: "(string \<rightharpoonup> 'a::{linorder,zero,one,plus}) option"
  assumes "1 \<le> groupTotal"
  shows "mset (concat (map (group_members prevTimings groupTotal testNames) [1..groupTotal])) = mset testNames"
proof (cases prevTimings)
  case None
  have "concat (map (group_members prevTimings groupTotal testNames) [1..groupTotal]) = testNames"
    using slices_cover [OF assms, of testNames]
    by (simp add: None group_members_def [abs_def] select_group_def Let_def)
  then show ?thesis by simp
next
  case (Some timings)
  define b where "b = balance_groups groupTotal timings initial_balance testNames"
  have ok: "balance_ok groupTotal b" and ms: "mset (concat (groups b)) = mset testNames"
    using balance_groups_ok [OF initial_balance_ok, of groupTotal timings testNames]
    by (simp_all add: b_def initial_balance_def)
  from ok assms have len: "length (groups b) \<le> nat groupTotal"
    by (simp add: balance_ok_def max_def split: if_splits)
  have g: "[1..groupTotal] = map (\<lambda>i. int i + 1) [0..<nat groupTotal]"
    using upto_from_one [of "nat groupTotal"] assms by simp
  have "concat (map (group_members prevTimings groupTotal testNames) [1..groupTotal]) = concat (groups b)"
    using concat_js_index [OF len]
    by (simp add: Some group_members_def [abs_def] select_group_def Let_def b_def [symmetric] g o_def)
  with ms show ?thesis by simp
qed

subsection \<open>Claims about the group partitioner\<close>

text \<open>
  C1. For every list of filtered identifiers and every \<open>groupTotal \<ge> 1\<close>, with or without
  historical timings (\<open>prevTimings\<close> is \<open>None\<close> for contiguous slicing and \<open>Some\<close> ledger
  for the greedy algorithm), the groups 1 to \<open>groupTotal\<close> together hold exactly the
  filtered identifiers: as multisets the concatenation of all groups equals the input
  (nothing lost, nothing duplicated), the group sizes add up to the number of
  identifiers, and when the identifiers are pairwise different (they come out of a
  \<^verbatim>\<open>Set\<close>) each one is in exactly one group.
\<close>

theorem partition_exactly_once:
  fixes prevTimings :: "(string \<rightharpoonup> 'a::{linorder,zero,one,plus}) option"
  assumes "1 \<le> groupTotal"
  shows "mset (concat (map (group_members prevTimings groupTotal testNames) [1..groupTotal]))
           = mset testNames \<and>
         sum_list (map (\<lambda>p. length (group_members prevTimings groupTotal testNames p)) [1..groupTotal])
           = length testNames \<and>
         (distinct testNames \<longrightarrow>
            (\<forall>t\<in>set testNames. \<exists>!p. p \<in> set [1..groupTotal] \<and>
                t \<in> set (group_members prevTimings groupTotal testNames p)))"
proof -
  let ?f = "group_members prevTimings groupTotal testNames"
  have ms: "mset (concat (map ?f [1..groupTotal])) = mset testNames"
    by (rule members_cover [OF assms])
  have "length (concat (map ?f [1..groupTotal])) = length testNames"
    using ms by (metis size_mset)
  then have sm: "sum_list (map (\<lambda>p. length (?f p)) [1..groupTotal]) = length testNames"
    by (simp add: length_concat o_def)
  have ex1: "\<exists>!p. p \<in> set [1..groupTotal] \<and> t \<in> set (?f p)"
    if d: "distinct testNames" and t: "t \<in> set testNames" for t
  proof -
    have dc: "distinct (concat (map ?f [1..groupTotal]))"
      using ms d by (metis mset_eq_imp_distinct_iff)
    have "t \<in> set (concat (map ?f [1..groupTotal]))"
      using ms t by (metis mset_eq_setD)
    then obtain p where p: "p \<in> set [1..groupTotal]" "t \<in> set (?f p)" by auto
    show ?thesis
    proof (rule ex1I [of _ p])
      show "p \<in> set [1..groupTotal] \<and> t \<in> set (?f p)" using p by simp
    next
      fix q assume "q \<in> set [1..groupTotal] \<and> t \<in> set (?f q)"
      then show "q = p"
        using one_group_only [OF dc distinct_upto, of q p t] p by blast
    qed
  qed
  from ms sm ex1 show ?thesis by blast
qed

theorem partition_exactly_once_witness:
  "(1::int) \<le> 2 \<and> distinct [''a/x.test.js'', ''a/y.test.js'', ''b/z.test.js''] \<and>
   mset (concat (map (group_members (Some [''a/x.test.js'' \<mapsto> (5::int)]) 2
       [''a/x.test.js'', ''a/y.test.js'', ''b/z.test.js'']) [1..2]))
     = mset [''a/x.test.js'', ''a/y.test.js'', ''b/z.test.js''] \<and>
   sum_list (map (\<lambda>p. length (group_members (Some [''a/x.test.js'' \<mapsto> (5::int)]) 2
       [''a/x.test.js'', ''a/y.test.js'', ''b/z.test.js''] p)) [1..2]) = 3 \<and>
   (\<exists>!p. p \<in> set [1..2] \<and> ''b/z.test.js'' \<in> set (group_members
       (Some [''a/x.test.js'' \<mapsto> (5::int)]) 2
       [''a/x.test.js'', ''a/y.test.js'', ''b/z.test.js''] p))"
proof -
  have h: "(1::int) \<le> 2" by simp
  have d: "distinct [''a/x.test.js'', ''a/y.test.js'', ''b/z.test.js'']" by simp
  note w = partition_exactly_once [OF h, of "Some [''a/x.test.js'' \<mapsto> (5::int)]"
      "[''a/x.test.js'', ''a/y.test.js'', ''b/z.test.js'']"]
  from w have 1: "mset (concat (map (group_members (Some [''a/x.test.js'' \<mapsto> (5::int)]) 2
       [''a/x.test.js'', ''a/y.test.js'', ''b/z.test.js'']) [1..2]))
     = mset [''a/x.test.js'', ''a/y.test.js'', ''b/z.test.js'']" by (rule conjunct1)
  from w have 2: "sum_list (map (\<lambda>p. length (group_members (Some [''a/x.test.js'' \<mapsto> (5::int)]) 2
       [''a/x.test.js'', ''a/y.test.js'', ''b/z.test.js''] p)) [1..2]) = 3" by simp
  from w d have 3: "\<forall>t\<in>set [''a/x.test.js'', ''a/y.test.js'', ''b/z.test.js'']. \<exists>!p. p \<in> set [1..2] \<and>
       t \<in> set (group_members (Some [''a/x.test.js'' \<mapsto> (5::int)]) 2
       [''a/x.test.js'', ''a/y.test.js'', ''b/z.test.js''] p)" by blast
  have 4: "''b/z.test.js'' \<in> set [''a/x.test.js'', ''a/y.test.js'', ''b/z.test.js'']" by simp
  from h d 1 2 bspec [OF 3 4] show ?thesis by blast
qed

text \<open>
  C5. Without historical timings the caller's group is a contiguous slice of the
  identifiers in discovery order, \<open>\<lceil>total / groupTotal\<rceil>\<close> wide and starting at
  \<open>(groupPos - 1) * \<lceil>total / groupTotal\<rceil>\<close>; for the three identifiers of the
  specification's scenario and \<open>groupTotal = 2\<close>, group 1 is the first two and group 2 is
  the third.
\<close>

theorem contiguous_slicing:
  assumes "1 \<le> groupTotal" and "1 \<le> groupPos"
  shows "select_group (None :: (string \<rightharpoonup> 'a::{linorder,zero,one,plus}) option)
             groupPos groupTotal testNames
           = Some (take (nat \<lceil>real (length testNames) / real_of_int groupTotal\<rceil>)
               (drop (nat (groupPos - 1) * nat \<lceil>real (length testNames) / real_of_int groupTotal\<rceil>)
                  testNames)) \<and>
         select_group (None :: (string \<rightharpoonup> 'a) option) 1 2
             [''a/x.test.js'', ''a/y.test.js'', ''b/z.test.js'']
           = Some [''a/x.test.js'', ''a/y.test.js''] \<and>
         select_group (None :: (string \<rightharpoonup> 'a) option) 2 2
             [''a/x.test.js'', ''a/y.test.js'', ''b/z.test.js'']
           = Some [''b/z.test.js'']"
proof -
  have k: "0 \<le> numPerGroup (length testNames) groupTotal"
    by (rule numPerGroup_covers(1) [OF assms(1)])
  have "js_slice testNames ((groupPos - 1) * numPerGroup (length testNames) groupTotal)
          ((groupPos - 1) * numPerGroup (length testNames) groupTotal
             + numPerGroup (length testNames) groupTotal)
        = take (nat (numPerGroup (length testNames) groupTotal))
            (drop (nat ((groupPos - 1) * numPerGroup (length testNames) groupTotal)) testNames)"
    using assms(2) k by (intro js_slice_take_drop) simp_all
  then have general: "select_group (None :: (string \<rightharpoonup> 'a) option) groupPos groupTotal testNames
           = Some (take (nat \<lceil>real (length testNames) / real_of_int groupTotal\<rceil>)
               (drop (nat (groupPos - 1) * nat \<lceil>real (length testNames) / real_of_int groupTotal\<rceil>)
                  testNames))"
    using assms(2) k by (simp add: select_group_def Let_def nat_mult_distrib numPerGroup_def)
  have n: "numPerGroup (length [''a/x.test.js'', ''a/y.test.js'', ''b/z.test.js'']) 2 = 2"
    by (simp add: numPerGroup_div)
  have one: "select_group (None :: (string \<rightharpoonup> 'a) option) 1 2
             [''a/x.test.js'', ''a/y.test.js'', ''b/z.test.js'']
           = Some [''a/x.test.js'', ''a/y.test.js'']"
    unfolding select_group_def Let_def n by (simp add: js_slice_def)
  have two: "select_group (None :: (string \<rightharpoonup> 'a) option) 2 2
             [''a/x.test.js'', ''a/y.test.js'', ''b/z.test.js'']
           = Some [''b/z.test.js'']"
    unfolding select_group_def Let_def n by (simp add: js_slice_def)
  from general one two show ?thesis by blast
qed

theorem contiguous_slicing_witness:
  "(1::int) \<le> 3 \<and> (1::int) \<le> 3 \<and>
   select_group (None :: (string \<rightharpoonup> int) option) 3 3
       [''t1'', ''t2'', ''t3'', ''t4'', ''t5'', ''t6'', ''t7''] = Some [''t7'']"
proof -
  have h: "(1::int) \<le> 3" by simp
  have c: "\<lceil>real (length [''t1'', ''t2'', ''t3'', ''t4'', ''t5'', ''t6'', ''t7'']) / real_of_int 3\<rceil> = 3"
    by (simp add: ceiling_divide_eq_div [of 7 3, where ?'a = real, simplified])
  from contiguous_slicing [OF h h, where ?'a = int,
      of "[''t1'', ''t2'', ''t3'', ''t4'', ''t5'', ''t6'', ''t7'']"]
  have "select_group (None :: (string \<rightharpoonup> int) option) 3 3
       [''t1'', ''t2'', ''t3'', ''t4'', ''t5'', ''t6'', ''t7''] = Some [''t7'']"
    unfolding c by simp
  with h show ?thesis by simp
qed

text \<open>
  C3 (amended). With historical timings the greedy partitioner takes the identifiers in
  discovered order (\<open>balance_groups\<close> folds \<open>assign_test\<close> over the list from the left).
  With \<open>b\<close> the state after the identifiers \<open>processed\<close> and \<open>b'\<close> the state after the
  next identifier \<open>testName\<close>, there is a group \<open>k\<close> among the \<open>groupTotal\<close> groups whose
  accumulated duration in \<open>b\<close> is smallest, no group of lower index has the same
  duration, \<open>testName\<close> is appended to group \<open>k\<close> and to no other group, and the duration
  of group \<open>k\<close> grows by the identifier's ledger duration, where 1 is taken both when
  the ledger has no entry and when the entry is 0; all other durations are unchanged.
\<close>

theorem greedy_assignment:
  fixes prevTimings :: "string \<rightharpoonup> 'a::{linorder,zero,one,plus}"
  assumes "1 \<le> groupTotal"
  shows "let b = balance_groups groupTotal prevTimings initial_balance processed;
             b' = balance_groups groupTotal prevTimings initial_balance (processed @ [testName])
         in \<exists>k<nat groupTotal.
              (\<forall>j<nat groupTotal. group_time b k \<le> group_time b j) \<and>
              (\<forall>j<k. group_time b k < group_time b j) \<and>
              (\<forall>j<nat groupTotal. group_ids b' j =
                  (if j = k then group_ids b k @ [testName] else group_ids b j)) \<and>
              (\<forall>j<nat groupTotal. group_time b' j =
                  (if j = k then group_time b k + duration_or_default prevTimings testName
                   else group_time b j))"
proof -
  define b where "b = balance_groups groupTotal prevTimings initial_balance processed"
  define b' where "b' = balance_groups groupTotal prevTimings initial_balance (processed @ [testName])"
  have step: "b' = assign_test groupTotal prevTimings b testName"
    by (simp add: b'_def b_def balance_groups_append)
  have ok: "balance_ok groupTotal b"
    using balance_groups_ok [OF initial_balance_ok, of groupTotal prevTimings processed]
    by (simp add: b_def)
  then have len: "length (groups b) = length (groupTimes b)" and pos: "1 \<le> length (groups b)"
    and le: "length (groups b) \<le> max 1 (nat groupTotal)"
    by (simp_all add: balance_ok_def)
  have mx: "max 1 (nat groupTotal) = nat groupTotal" using assms by simp
  have mx': "max (length (groups b)) (nat groupTotal) = nat groupTotal" using le mx by simp
  from assign_test_spec [OF ok, of prevTimings testName] obtain k where k: "k < nat groupTotal"
    and mn: "\<forall>j<nat groupTotal. group_time b k \<le> group_time b j"
    and fst: "\<forall>j<k. group_time b k < group_time b j"
    and eq: "b' = \<lparr>groups = (groups (pad_groups groupTotal b))[k := group_ids b k @ [testName]],
        groupTimes = (groupTimes (pad_groups groupTotal b))
           [k := group_time b k + duration_or_default prevTimings testName]\<rparr>"
    unfolding mx step by blast
  note pn = pad_groups_nth(1,2) [OF len, of _ groupTotal, unfolded mx']
  note pl = pad_groups_nth(3,4) [OF len, of groupTotal, unfolded mx']
  have ids: "\<forall>j<nat groupTotal. group_ids b' j =
                  (if j = k then group_ids b k @ [testName] else group_ids b j)"
    using k pn(2) pl(1) by (simp add: eq group_ids_def [of "\<lparr>groups = _, groupTimes = _\<rparr>"])
  have tms: "\<forall>j<nat groupTotal. group_time b' j =
                  (if j = k then group_time b k + duration_or_default prevTimings testName
                   else group_time b j)"
    using k pn(1) pl(2) by (simp add: eq group_time_def [of "\<lparr>groups = _, groupTimes = _\<rparr>"])
  from k mn fst ids tms show ?thesis
    unfolding Let_def b_def [symmetric] b'_def [symmetric] by blast
qed

theorem greedy_assignment_witness:
  "(1::int) \<le> 2 \<and>
   (let b = balance_groups 2 [''a.test.js'' \<mapsto> (5::int)] initial_balance [''a.test.js''];
        b' = balance_groups 2 [''a.test.js'' \<mapsto> (5::int)] initial_balance
               ([''a.test.js''] @ [''b.test.js''])
    in \<exists>k<nat 2.
         (\<forall>j<nat 2. group_time b k \<le> group_time b j) \<and>
         (\<forall>j<k. group_time b k < group_time b j) \<and>
         (\<forall>j<nat 2. group_ids b' j =
             (if j = k then group_ids b k @ [''b.test.js''] else group_ids b j)) \<and>
         (\<forall>j<nat 2. group_time b' j =
             (if j = k then group_time b k
                  + duration_or_default [''a.test.js'' \<mapsto> (5::int)] ''b.test.js''
              else group_time b j))) \<and>
   balance_groups 2 [''a.test.js'' \<mapsto> (5::int)] initial_balance [''a.test.js'', ''b.test.js'']
     = \<lparr>groups = [[''a.test.js''], [''b.test.js'']], groupTimes = [5, 1]\<rparr>"
proof -
  have h: "(1::int) \<le> 2" by simp
  note w = greedy_assignment [OF h, of "[''a.test.js'' \<mapsto> (5::int)]" "[''a.test.js'']" "''b.test.js''"]
  have e: "balance_groups 2 [''a.test.js'' \<mapsto> (5::int)] initial_balance [''a.test.js'', ''b.test.js'']
     = \<lparr>groups = [[''a.test.js''], [''b.test.js'']], groupTimes = [5, 1]\<rparr>"
    by (simp add: assign_test_def scan_groups.simps ensure_group_def initial_balance_def
        js_set_def duration_or_default_def)
  from h w e show ?thesis by (intro conjI)
qed

text \<open>
  C3 as stated fails where the ledger records the duration 0: the claim adds the recorded
  duration (\<open>recorded_or_one\<close>, 0 here) to the group's total, the code adds 1.
\<close>

theorem greedy_zero_duration_counterexample:
  "group_time (balance_groups 1 [''a.test.js'' \<mapsto> (0::int)] initial_balance [''a.test.js'']) 0
     \<noteq> group_time (initial_balance :: int balance) 0
         + recorded_or_one [''a.test.js'' \<mapsto> (0::int)] ''a.test.js''"
  by (simp add: assign_test_def scan_groups.simps ensure_group_def initial_balance_def
      js_set_def duration_or_default_def recorded_or_one_def group_time_def)

subsection \<open>Retry and recovery\<close>

declare retry_loop.simps [simp del]

text \<open>
  The loop unrolled: failed iterations up to the first attempt that passes.
\<close>

lemma runTest_cases:
  "failed (attempt env i) \<Longrightarrow>
     runTest cfg test (shouldSkipRetries cfg test \<or> i = numRetries cfg test)
        (shouldSkipRetries cfg test \<or> i > 0) (attempt env i)
     = (attempt_events cfg test env i,
        Rejected (exit_code (attempt env i)) (exit_signal (attempt env i))
          (concat (map snd (if hideOutput cfg then chunks (attempt env i) else []))))"
  "\<not> failed (attempt env i) \<Longrightarrow>
     runTest cfg test (shouldSkipRetries cfg test \<or> i = numRetries cfg test)
        (shouldSkipRetries cfg test \<or> i > 0) (attempt env i)
     = (attempt_events cfg test env i, Resolved (elapsed (attempt env i)))"
  by (simp_all add: attempt_events_def runTest_def Let_def)

lemma retry_loop_step:
  "i < numRetries cfg test + 1 \<Longrightarrow> failed (attempt env i) \<Longrightarrow>
     retry_loop cfg test env i =
       (failed_iteration cfg test env i @ fst (retry_loop cfg test env (Suc i)),
        snd (retry_loop cfg test env (Suc i)))"
  "i < numRetries cfg test + 1 \<Longrightarrow> \<not> failed (attempt env i) \<Longrightarrow>
     retry_loop cfg test env i = (passing_iteration cfg test env i, True)"
  "\<not> i < numRetries cfg test + 1 \<Longrightarrow> retry_loop cfg test env i = ([], False)"
proof -
  show "retry_loop cfg test env i =
       (failed_iteration cfg test env i @ fst (retry_loop cfg test env (Suc i)),
        snd (retry_loop cfg test env (Suc i)))"
    if "i < numRetries cfg test + 1" "failed (attempt env i)"
    using that
    by (subst retry_loop.simps)
       (simp add: runTest_cases failed_iteration_def recover_def Let_def split: prod.splits)
  show "retry_loop cfg test env i = (passing_iteration cfg test env i, True)"
    if "i < numRetries cfg test + 1" "\<not> failed (attempt env i)"
    using that
    by (subst retry_loop.simps) (simp add: runTest_cases passing_iteration_def)
  show "retry_loop cfg test env i = ([], False)" if "\<not> i < numRetries cfg test + 1"
    using that by (subst retry_loop.simps) simp
qed

lemma retry_loop_from:
  "i \<le> numRetries cfg test + 1 \<Longrightarrow>
   retry_loop cfg test env i =
     (case List.find (\<lambda>i. \<not> failed (attempt env i)) [i..<numRetries cfg test + 1] of
        Some j \<Rightarrow> (concat (map (failed_iteration cfg test env) [i..<j])
                    @ passing_iteration cfg test env j, True)
      | None \<Rightarrow> (concat (map (failed_iteration cfg test env) [i..<numRetries cfg test + 1]), False))"
proof (induction cfg test env i rule: retry_loop.induct)
  case (1 cfg test env i)
  define N where "N = numRetries cfg test + 1"
  show ?case
  proof (cases "i < N")
    case False
    then show ?thesis by (simp add: retry_loop_step(3) N_def)
  next
    case True
    then have upt: "[i..<N] = i # [Suc i..<N]"
      by (simp add: upt_rec)
    show ?thesis
    proof (cases "failed (attempt env i)")
      case False
      with True show ?thesis
        unfolding N_def [symmetric] upt by (simp add: retry_loop_step(2) N_def)
    next
      case f: True
      have ih: "retry_loop cfg test env (Suc i) =
        (case List.find (\<lambda>i. \<not> failed (attempt env i)) [Suc i..<N] of
          Some j \<Rightarrow> (concat (map (failed_iteration cfg test env) [Suc i..<j])
                    @ passing_iteration cfg test env j, True)
        | None \<Rightarrow> (concat (map (failed_iteration cfg test env) [Suc i..<N]), False))"
        unfolding N_def
      proof (rule "1.IH" [OF _ runTest_cases(1) [OF f, symmetric] refl refl])
        show "i < numRetries cfg test + 1" using True by (simp add: N_def)
        show "Suc i \<le> numRetries cfg test + 1" using True by (simp add: N_def)
      qed
      have step: "retry_loop cfg test env i =
       (failed_iteration cfg test env i @ fst (retry_loop cfg test env (Suc i)),
        snd (retry_loop cfg test env (Suc i)))"
        using True f by (intro retry_loop_step(1)) (simp_all add: N_def)
      have later: "i < j" if "List.find (\<lambda>i. \<not> failed (attempt env i)) [Suc i..<N] = Some j" for j
        using that by (auto simp: find_Some_iff)
      show ?thesis
        unfolding N_def [symmetric] upt step ih
        using f by (auto simp: upt_rec [of i] dest: later split: option.splits)
    qed
  qed
qed

text \<open>
  \<open>js_includes\<close> is containment as a contiguous substring.
\<close>

lemma startsWith_iff: "startsWith s p \<longleftrightarrow> (\<exists>post. s = p @ post)"
  by (induction s p rule: startsWith.induct) auto

lemma js_includes_iff: "js_includes s p \<longleftrightarrow> (\<exists>pre post. s = pre @ p @ post)"
proof (induction s)
  case Nil
  show ?case by auto
next
  case (Cons c cs)
  have "(\<exists>pre post. c # cs = pre @ p @ post) \<longleftrightarrow>
        (\<exists>post. c # cs = p @ post) \<or> (\<exists>pre post. cs = pre @ p @ post)"
  proof
    assume "\<exists>pre post. c # cs = pre @ p @ post"
    then obtain pre post where e: "c # cs = pre @ p @ post" by blast
    show "(\<exists>post. c # cs = p @ post) \<or> (\<exists>pre post. cs = pre @ p @ post)"
    proof (cases pre)
      case Nil
      with e show ?thesis by auto
    next
      case (Cons a pre')
      with e have "cs = pre' @ p @ post" by simp
      then show ?thesis by blast
    qed
  next
    assume "(\<exists>post. c # cs = p @ post) \<or> (\<exists>pre post. cs = pre @ p @ post)"
    then show "\<exists>pre post. c # cs = pre @ p @ post"
    proof
      assume "\<exists>post. c # cs = p @ post"
      then obtain post where "c # cs = [] @ p @ post" by auto
      then show ?thesis by blast
    next
      assume "\<exists>pre post. cs = pre @ p @ post"
      then obtain pre post where "c # cs = (c # pre) @ p @ post" by auto
      then show ?thesis by blast
    qed
  qed
  with Cons show ?case by (simp add: startsWith_iff)
qed

lemma shouldSkipRetries_iff:
  assumes "test \<noteq> []"
  shows "shouldSkipRetries cfg test \<longleftrightarrow> (\<exists>t\<in>set (skipRetryTestManifest cfg). js_includes t test)"
proof (cases "find_skip_entry (skipRetryTestManifest cfg) test")
  case None
  then have "\<not> (\<exists>t\<in>set (skipRetryTestManifest cfg). js_includes t test)"
    by (auto simp: find_skip_entry_def find_None_iff)
  with None show ?thesis by (simp add: shouldSkipRetries_def)
next
  case (Some t)
  then have t: "t \<in> set (skipRetryTestManifest cfg)" "js_includes t test"
    by (auto simp: find_skip_entry_def find_Some_iff)
  from t(2) assms have "t \<noteq> []" by (auto simp: js_includes_iff)
  with Some t show ?thesis by (auto simp: shouldSkipRetries_def)
qed

lemma spawns_attempt: "length (filter is_spawn (attempt_events cfg test env i)) = 1"
  by (simp add: attempt_events_def runTest_def Let_def output_block_def filter_map o_def split_def)

lemma spawns_iteration:
  "length (filter is_spawn (failed_iteration cfg test env i)) = 1"
  "length (filter is_spawn (passing_iteration cfg test env i)) = 1"
  by (simp_all add: failed_iteration_def passing_iteration_def spawns_attempt)

lemma spawns_concat:
  "length (filter is_spawn (concat (map (failed_iteration cfg test env) is))) = length is"
  by (induction "is") (simp_all add: spawns_iteration)

lemma retry_loop_closed:
  "retry_loop cfg test env 0 =
     (case first_pass cfg test env of
        Some j \<Rightarrow> (concat (map (failed_iteration cfg test env) [0..<j])
                    @ passing_iteration cfg test env j, True)
      | None \<Rightarrow> (concat (map (failed_iteration cfg test env) [0..<numRetries cfg test + 1]), False))"
  using retry_loop_from [of 0 cfg test env] by (simp add: first_pass_def)

lemma first_pass_Some:
  "first_pass cfg test env = Some j \<longleftrightarrow>
     j \<le> numRetries cfg test \<and> \<not> failed (attempt env j) \<and> (\<forall>i<j. failed (attempt env i))"
  by (auto simp del: upt_Suc simp add: first_pass_def find_Some_iff less_Suc_eq_le)

lemma first_pass_None:
  "first_pass cfg test env = None \<longleftrightarrow> (\<forall>i\<le>numRetries cfg test. failed (attempt env i))"
  by (auto simp del: upt_Suc simp add: first_pass_def find_None_iff less_Suc_eq_le)

lemma retry_loop_spawns:
  "length (filter is_spawn (fst (retry_loop cfg test env 0))) =
     (case first_pass cfg test env of Some j \<Rightarrow> j + 1 | None \<Rightarrow> numRetries cfg test + 1)"
  by (simp add: retry_loop_closed spawns_concat spawns_iteration split: option.splits)

lemma retry_loop_passed:
  "snd (retry_loop cfg test env 0) \<longleftrightarrow> first_pass cfg test env \<noteq> None"
  by (simp add: retry_loop_closed split: option.splits)

lemma no_spawn_after:
  "filter is_spawn (after_failure cfg test) = []"
  "filter is_spawn (emit_results cfg env) = []"
  by (simp_all add: after_failure_def emit_results_def split: option.splits)

lemma worker_body_eq:
  "worker_body cfg test env =
     (if shouldSkipRetries cfg test then [ConsoleLog (SkippingRetry test)] else [])
     @ fst (retry_loop cfg test env 0)
     @ (if \<not> snd (retry_loop cfg test env 0) then after_failure cfg test else [])
     @ (if (\<not> snd (retry_loop cfg test env 0) \<or> shouldContinueTestsOnError cfg) \<and> isTestJob cfg
        then emit_results cfg env else [])"
  by (simp add: worker_body_def split: prod.splits)

lemma worker_spawns:
  "filter is_spawn (fst (worker cfg test dirSema env)) = filter is_spawn (fst (retry_loop cfg test env 0))"
  by (simp add: worker_def worker_body_eq no_spawn_after split: option.splits)

lemma worker_passed: "snd (worker cfg test dirSema env) = snd (retry_loop cfg test env 0)"
  by (simp add: worker_def)

lemma attempt_events_spawn:
  "filter is_spawn (attempt_events cfg test env i) =
     [Spawn test (shouldSkipRetries cfg test \<or> i = numRetries cfg test)
        (shouldSkipRetries cfg test \<or> 0 < i)]"
  by (simp add: attempt_events_def runTest_def Let_def output_block_def filter_map o_def split_def)

lemma iteration_spawn:
  "filter is_spawn (failed_iteration cfg test env i) =
     [Spawn test (shouldSkipRetries cfg test \<or> i = numRetries cfg test)
        (shouldSkipRetries cfg test \<or> 0 < i)]"
  "filter is_spawn (passing_iteration cfg test env i) =
     [Spawn test (shouldSkipRetries cfg test \<or> i = numRetries cfg test)
        (shouldSkipRetries cfg test \<or> 0 < i)]"
  by (simp_all add: failed_iteration_def passing_iteration_def attempt_events_spawn)

lemma concat_iteration_spawn:
  "filter is_spawn (concat (map (failed_iteration cfg test env) is)) =
     map (\<lambda>i. Spawn test (shouldSkipRetries cfg test \<or> i = numRetries cfg test)
        (shouldSkipRetries cfg test \<or> 0 < i)) is"
  by (induction "is") (simp_all add: iteration_spawn)

lemma retry_loop_spawn_list:
  "filter is_spawn (fst (retry_loop cfg test env 0)) =
     map (\<lambda>i. Spawn test (shouldSkipRetries cfg test \<or> i = numRetries cfg test)
            (shouldSkipRetries cfg test \<or> 0 < i))
       [0..<(case first_pass cfg test env of Some j \<Rightarrow> j + 1 | None \<Rightarrow> numRetries cfg test + 1)]"
  by (simp add: retry_loop_closed concat_iteration_spawn iteration_spawn split: option.splits)

lemma first_pass_clean_ok [simp]:
  "first_pass cfg test (env\<lparr>clean_ok := c\<rparr>) = first_pass cfg test env"
  by (simp add: first_pass_def)

lemma attempt_events_exec: "filter is_exec (attempt_events cfg test env i) = []"
  by (simp add: attempt_events_def runTest_def Let_def output_block_def filter_map o_def split_def)

lemma attempt_events_exit:
  "exit_calls_of (attempt_events cfg test env i) = []" "KillChildren \<notin> set (attempt_events cfg test env i)"
proof -
  have w: "exit_calls_of (map (\<lambda>(tag, chunk). StdoutWrite chunk) cs @ es) = exit_calls_of es"
    "KillChildren \<notin> set (map (\<lambda>(tag, chunk). StdoutWrite chunk) cs)" for cs es
    by (induction cs) auto
  show "exit_calls_of (attempt_events cfg test env i) = []"
    by (simp add: attempt_events_def runTest_def Let_def output_block_def w(1)
        w(1) [of _ "[]", simplified])
  show "KillChildren \<notin> set (attempt_events cfg test env i)"
    using w(2) by (auto simp: attempt_events_def runTest_def Let_def output_block_def)
qed

lemma exit_calls_append: "exit_calls_of (xs @ ys) = exit_calls_of xs @ exit_calls_of ys"
  by (induction xs rule: exit_calls_of.induct) simp_all

subsection \<open>Timings and exit code\<close>

lemma pushed_timings_append: "pushed_timings (xs @ ys) = pushed_timings xs @ pushed_timings ys"
  by (induction xs rule: pushed_timings.induct) simp_all

lemma pushed_timings_writes [simp]:
  "pushed_timings (map (\<lambda>(tag, chunk). StdoutWrite chunk) cs) = []"
  by (induction cs) auto

lemma pushed_timings_attempt: "pushed_timings (attempt_events cfg test env i) = []"
  by (simp add: attempt_events_def runTest_def Let_def output_block_def pushed_timings_append)

lemma pushed_timings_iteration:
  "pushed_timings (failed_iteration cfg test env i) = []"
  "pushed_timings (passing_iteration cfg test env j) = [(test, elapsed (attempt env j))]"
  by (simp_all add: failed_iteration_def passing_iteration_def pushed_timings_append
      pushed_timings_attempt)

lemma pushed_timings_concat:
  "pushed_timings (concat (map (failed_iteration cfg test env) is)) = []"
  by (induction "is") (simp_all add: pushed_timings_append pushed_timings_iteration)

lemma worker_pushed_timings:
  "pushed_timings (fst (worker cfg test dirSema env)) =
     (case first_pass cfg test env of
        Some j \<Rightarrow> [(test, elapsed (attempt env j))]
      | None \<Rightarrow> [])"
  by (simp add: worker_def worker_body_eq retry_loop_closed pushed_timings_append
      pushed_timings_concat pushed_timings_iteration after_failure_def emit_results_def
      split: option.splits)

lemma record_timings_append:
  "record_timings cur (xs @ ys) = record_timings (record_timings cur xs) ys"
  by (induction xs arbitrary: cur) auto

lemma record_timings_other:
  "file \<notin> fst ` set ts \<Longrightarrow> record_timings cur ts file = cur file"
  by (induction ts arbitrary: cur) auto

lemma record_timings_last:
  "file \<notin> fst ` set later \<Longrightarrow>
     record_timings cur (earlier @ (file, time) # later) file = Some (real_of_int time / 1000)"
  by (simp add: record_timings_append record_timings_other)

lemma exit_calls_writes [simp]:
  "exit_calls_of (map (\<lambda>(tag, chunk). StdoutWrite chunk) cs) = []"
  by (induction cs) auto








subsection \<open>Claims about retries and recovery\<close>

text \<open>
  C10. For a (non-empty) test identifier, retries are skipped exactly when some entry of
  the skip-retry manifest contains the identifier as a contiguous substring (equality
  included); then the retry budget is 0, and otherwise it is the configured one. In
  particular, when no entry contains the whole identifier (entries that are only a part
  or a prefix of it) the configured budget stays.
\<close>

theorem skip_retries_iff_contained:
  assumes "test \<noteq> []"
  shows "(shouldSkipRetries cfg test \<longleftrightarrow>
            (\<exists>entry\<in>set (skipRetryTestManifest cfg). \<exists>pre post. entry = pre @ test @ post)) \<and>
         numRetries cfg test =
            (if \<exists>entry\<in>set (skipRetryTestManifest cfg). \<exists>pre post. entry = pre @ test @ post
             then 0 else originalRetries cfg) \<and>
         ((\<forall>entry\<in>set (skipRetryTestManifest cfg). \<not> (\<exists>pre post. entry = pre @ test @ post))
            \<longrightarrow> \<not> shouldSkipRetries cfg test \<and> numRetries cfg test = originalRetries cfg)"
  using shouldSkipRetries_iff [OF assms, of cfg]
  by (simp add: numRetries_def js_includes_iff)

theorem skip_retries_iff_contained_witness:
  "''test/e2e/app.test.js'' \<noteq> [] \<and>
   (\<exists>entry\<in>set [''test/e2e'', ''x test/e2e/app.test.js y''].
       \<exists>pre post. entry = pre @ ''test/e2e/app.test.js'' @ post) \<and>
   shouldSkipRetries (example_config\<lparr>skipRetryTestManifest := [''test/e2e'', ''x test/e2e/app.test.js y'']\<rparr>)
       ''test/e2e/app.test.js'' \<and>
   numRetries (example_config\<lparr>skipRetryTestManifest := [''test/e2e'', ''x test/e2e/app.test.js y'']\<rparr>)
       ''test/e2e/app.test.js'' = 0 \<and>
   \<not> shouldSkipRetries (example_config\<lparr>skipRetryTestManifest := [''test/e2e'', ''app.test.js'']\<rparr>)
       ''test/e2e/app.test.js''"
proof -
  have h: "''test/e2e/app.test.js'' \<noteq> []" by simp
  have c: "\<exists>entry\<in>set [''test/e2e'', ''x test/e2e/app.test.js y''].
       \<exists>pre post. entry = pre @ ''test/e2e/app.test.js'' @ post"
  proof -
    have "''x test/e2e/app.test.js y'' = ''x '' @ ''test/e2e/app.test.js'' @ '' y''" by simp
    then show ?thesis by (metis list.set_intros(1,2))
  qed
  note w = skip_retries_iff_contained [OF h,
      of "example_config\<lparr>skipRetryTestManifest := [''test/e2e'', ''x test/e2e/app.test.js y'']\<rparr>"]
  from w c have 1: "shouldSkipRetries
       (example_config\<lparr>skipRetryTestManifest := [''test/e2e'', ''x test/e2e/app.test.js y'']\<rparr>)
       ''test/e2e/app.test.js''" by simp
  from w c have 2: "numRetries
       (example_config\<lparr>skipRetryTestManifest := [''test/e2e'', ''x test/e2e/app.test.js y'']\<rparr>)
       ''test/e2e/app.test.js'' = 0" by simp
  have 3: "\<not> shouldSkipRetries (example_config\<lparr>skipRetryTestManifest := [''test/e2e'', ''app.test.js'']\<rparr>)
       ''test/e2e/app.test.js''"
    by (simp add: shouldSkipRetries_def find_skip_entry_def example_config_def)
  from h c 1 2 3 show ?thesis by blast
qed

text \<open>
  C4. A worker spawns its test at least once and at most \<open>numRetries + 1\<close> times, where
  \<open>numRetries\<close> is the configured budget or 0, hence at most \<open>originalRetries + 1\<close> times;
  the test is reported as failed (\<open>FailedToPass\<close>) exactly when it did not pass, and then
  all \<open>numRetries + 1\<close> attempts were made and failed. A (non-empty) test identifier
  contained in an entry of the skip-retry manifest is spawned exactly once, whatever the
  configured budget.
\<close>

theorem attempts_within_budget:
  "1 \<le> length (filter is_spawn (fst (worker cfg test dirSema env))) \<and>
   length (filter is_spawn (fst (worker cfg test dirSema env))) \<le> numRetries cfg test + 1 \<and>
   numRetries cfg test \<le> originalRetries cfg \<and>
   (ConsoleError (FailedToPass test (numRetries cfg test)) \<in> set (fst (worker cfg test dirSema env))
      \<longleftrightarrow> \<not> snd (worker cfg test dirSema env)) \<and>
   (\<not> snd (worker cfg test dirSema env) \<longrightarrow>
      length (filter is_spawn (fst (worker cfg test dirSema env))) = numRetries cfg test + 1 \<and>
      (\<forall>i\<le>numRetries cfg test. failed (attempt env i))) \<and>
   (test \<noteq> [] \<and> (\<exists>entry\<in>set (skipRetryTestManifest cfg). js_includes entry test) \<longrightarrow>
      length (filter is_spawn (fst (worker cfg test dirSema env))) = 1)"
proof -
  let ?n = "length (filter is_spawn (fst (worker cfg test dirSema env)))"
  have n: "?n = (case first_pass cfg test env of Some j \<Rightarrow> j + 1 | None \<Rightarrow> numRetries cfg test + 1)"
    by (simp add: worker_spawns retry_loop_spawns)
  have passed: "snd (worker cfg test dirSema env) \<longleftrightarrow> first_pass cfg test env \<noteq> None"
    by (simp add: worker_passed retry_loop_passed)
  have lo: "1 \<le> ?n" unfolding n by (simp split: option.splits)
  have hi: "?n \<le> numRetries cfg test + 1"
    unfolding n by (auto simp: first_pass_Some split: option.splits)
  have le: "numRetries cfg test \<le> originalRetries cfg" by (simp add: numRetries_def)
  have msg: "ConsoleError (FailedToPass test (numRetries cfg test)) \<in> set (fst (worker cfg test dirSema env))
      \<longleftrightarrow> \<not> snd (worker cfg test dirSema env)"
  proof -
    have a: "ConsoleError (FailedToPass test k) \<notin> set (attempt_events cfg test env i)" for i k
      by (auto simp: attempt_events_def runTest_def Let_def output_block_def)
    have b: "ConsoleError (FailedToPass test k) \<notin> set (failed_iteration cfg test env i)" for i k
      by (simp add: failed_iteration_def a)
    have c: "ConsoleError (FailedToPass test k) \<notin> set (passing_iteration cfg test env i)" for i k
      by (simp add: passing_iteration_def a)
    have d: "ConsoleError (FailedToPass test k) \<notin> set (fst (retry_loop cfg test env 0))" for k
      by (simp add: retry_loop_closed b c split: option.splits)
    have e: "ConsoleError (FailedToPass test k) \<notin> set (emit_results cfg env)" for k
      by (simp add: emit_results_def split: option.splits)
    show ?thesis
      using d e
      by (auto simp: worker_def worker_body_eq after_failure_def split: option.splits)
  qed
  have fl: "?n = numRetries cfg test + 1 \<and> (\<forall>i\<le>numRetries cfg test. failed (attempt env i))"
    if "\<not> snd (worker cfg test dirSema env)"
    using that unfolding n passed by (simp add: first_pass_None [symmetric])
  have sk: "?n = 1"
    if "test \<noteq> []" and "\<exists>entry\<in>set (skipRetryTestManifest cfg). js_includes entry test"
  proof -
    from that have "numRetries cfg test = 0"
      by (simp add: numRetries_def shouldSkipRetries_iff)
    with lo hi show ?thesis by simp
  qed
  from lo hi le msg fl sk show ?thesis by blast
qed

theorem attempts_within_budget_witness:
  "''test/e2e/app.test.js'' \<noteq> [] \<and>
   (\<exists>entry\<in>set [''test/e2e/app.test.js''].  js_includes entry ''test/e2e/app.test.js'') \<and>
   \<not> snd (worker (example_config\<lparr>skipRetryTestManifest := [''test/e2e/app.test.js''],
                                   originalRetries := 3\<rparr>)
             ''test/e2e/app.test.js'' None always_failing) \<and>
   length (filter is_spawn (fst (worker
       (example_config\<lparr>skipRetryTestManifest := [''test/e2e/app.test.js''], originalRetries := 3\<rparr>)
       ''test/e2e/app.test.js'' None always_failing))) = 1 \<and>
   \<not> snd (worker example_config ''test/e2e/app.test.js'' None always_failing) \<and>
   length (filter is_spawn (fst (worker example_config ''test/e2e/app.test.js'' None always_failing)))
     = 2"
proof -
  let ?cfg = "example_config\<lparr>skipRetryTestManifest := [''test/e2e/app.test.js''],
                                   originalRetries := 3\<rparr>"
  have h: "''test/e2e/app.test.js'' \<noteq> []" by simp
  have c: "\<exists>entry\<in>set (skipRetryTestManifest ?cfg). js_includes entry ''test/e2e/app.test.js''"
    by simp
  have f: "first_pass cfg ''test/e2e/app.test.js'' always_failing = None" for cfg
    by (simp add: first_pass_None always_failing_def failing_run_def failed_def)
  have p: "\<not> snd (worker cfg ''test/e2e/app.test.js'' None always_failing)" for cfg
    by (simp add: worker_passed retry_loop_passed f)
  note w1 = attempts_within_budget [of ?cfg "''test/e2e/app.test.js''" None always_failing]
  note w2 = attempts_within_budget [of example_config "''test/e2e/app.test.js''" None always_failing]
  from w1 h c have 1: "length (filter is_spawn (fst (worker ?cfg ''test/e2e/app.test.js'' None
      always_failing))) = 1" by blast
  have "numRetries example_config ''test/e2e/app.test.js'' = 1"
    by (simp add: numRetries_def shouldSkipRetries_def find_skip_entry_def example_config_def)
  with w2 p [of example_config]
  have 2: "length (filter is_spawn (fst (worker example_config ''test/e2e/app.test.js'' None
      always_failing))) = 2" by simp
  from h c p [of ?cfg] 1 p [of example_config] 2 show ?thesis by simp
qed

text \<open>
  C6. The events of the retry loop are: one failed iteration for each attempt before the
  first passing one, then the passing iteration; or, when no attempt within the budget
  passes, one failed iteration for each of the \<open>numRetries + 1\<close> attempts. A failed
  iteration that is not the last one (\<open>i < numRetries\<close>) runs, after the attempt,
  \<^verbatim>\<open>git clean -fdx\<close> on the recovery directory and then, when that succeeded,
  \<^verbatim>\<open>git checkout\<close> on it; the last iteration and a passing iteration run no command. The
  recovery directory is the directory of the test file, or its parent when the
  directory's path ends in \<^verbatim>\<open>/test\<close> (or \<^verbatim>\<open>\test\<close>). Whether \<^verbatim>\<open>git clean\<close> fails or not does
  not change which attempts are spawned nor whether the test passes, and a failed
  iteration neither kills the children nor calls \<^verbatim>\<open>cleanUpAndExit\<close>. The worker runs
  no command outside the loop.
\<close>

theorem recovery_between_attempts:
  "fst (retry_loop cfg test env 0) =
     (case first_pass cfg test env of
        Some j \<Rightarrow> concat (map (failed_iteration cfg test env) [0..<j])
                   @ passing_iteration cfg test env j
      | None \<Rightarrow> concat (map (failed_iteration cfg test env) [0..<numRetries cfg test + 1])) \<and>
   (\<forall>i<numRetries cfg test.
      filter is_exec (failed_iteration cfg test env i) =
        Exec (''git clean -fdx '' @ quoted (recovery_dir cfg test))
        # (if clean_ok env i then [Exec (''git checkout '' @ quoted (recovery_dir cfg test))]
           else [])) \<and>
   filter is_exec (failed_iteration cfg test env (numRetries cfg test)) = [] \<and>
   (\<forall>j. filter is_exec (passing_iteration cfg test env j) = []) \<and>
   recovery_dir cfg test =
     (if endsWith (path_dirname cfg (path_join cfg (dirname_root cfg) test)) ''/test'' \<or>
         endsWith (path_dirname cfg (path_join cfg (dirname_root cfg) test)) (CHR 0x5C # ''test'')
      then path_join cfg (path_dirname cfg (path_join cfg (dirname_root cfg) test)) ''../''
      else path_dirname cfg (path_join cfg (dirname_root cfg) test)) \<and>
   filter is_spawn (fst (worker cfg test dirSema (env\<lparr>clean_ok := c\<rparr>)))
     = filter is_spawn (fst (worker cfg test dirSema env)) \<and>
   snd (worker cfg test dirSema (env\<lparr>clean_ok := c\<rparr>)) = snd (worker cfg test dirSema env) \<and>
   (\<forall>i. exit_calls_of (failed_iteration cfg test env i) = [] \<and>
        KillChildren \<notin> set (failed_iteration cfg test env i)) \<and>
   filter is_exec (fst (worker cfg test dirSema env))
     = filter is_exec (fst (retry_loop cfg test env 0))"
proof -
  have A: "fst (retry_loop cfg test env 0) =
     (case first_pass cfg test env of
        Some j \<Rightarrow> concat (map (failed_iteration cfg test env) [0..<j])
                   @ passing_iteration cfg test env j
      | None \<Rightarrow> concat (map (failed_iteration cfg test env) [0..<numRetries cfg test + 1]))"
    by (simp add: retry_loop_closed split: option.splits)
  have B: "\<forall>i<numRetries cfg test.
      filter is_exec (failed_iteration cfg test env i) =
        Exec (''git clean -fdx '' @ quoted (recovery_dir cfg test))
        # (if clean_ok env i then [Exec (''git checkout '' @ quoted (recovery_dir cfg test))]
           else [])"
    by (simp add: failed_iteration_def attempt_events_exec)
  have C: "filter is_exec (failed_iteration cfg test env (numRetries cfg test)) = []"
    by (simp add: failed_iteration_def attempt_events_exec)
  have D: "\<forall>j. filter is_exec (passing_iteration cfg test env j) = []"
    by (simp add: passing_iteration_def attempt_events_exec)
  have E: "recovery_dir cfg test =
     (if endsWith (path_dirname cfg (path_join cfg (dirname_root cfg) test)) ''/test'' \<or>
         endsWith (path_dirname cfg (path_join cfg (dirname_root cfg) test)) (CHR 0x5C # ''test'')
      then path_join cfg (path_dirname cfg (path_join cfg (dirname_root cfg) test)) ''../''
      else path_dirname cfg (path_join cfg (dirname_root cfg) test))"
    by (simp add: recovery_dir_def Let_def)
  have F: "filter is_spawn (fst (worker cfg test dirSema (env\<lparr>clean_ok := c\<rparr>)))
     = filter is_spawn (fst (worker cfg test dirSema env))"
    by (simp add: worker_spawns retry_loop_spawn_list)
  have G: "snd (worker cfg test dirSema (env\<lparr>clean_ok := c\<rparr>)) = snd (worker cfg test dirSema env)"
    by (simp add: worker_passed retry_loop_passed)
  have H: "\<forall>i. exit_calls_of (failed_iteration cfg test env i) = [] \<and>
        KillChildren \<notin> set (failed_iteration cfg test env i)"
    by (simp add: failed_iteration_def exit_calls_append attempt_events_exit)
  have I: "filter is_exec (fst (worker cfg test dirSema env))
     = filter is_exec (fst (retry_loop cfg test env 0))"
    by (simp add: worker_def worker_body_eq after_failure_def emit_results_def
        split: option.splits)
  from A B C D E F G H I show ?thesis by blast
qed

theorem recovery_between_attempts_witness:
  "0 < numRetries example_config ''test/integration/basic/test/index.test.js'' \<and>
   first_pass example_config ''test/integration/basic/test/index.test.js'' passes_on_retry = Some 1 \<and>
   recovery_dir example_config ''test/integration/basic/test/index.test.js''
     = ''/repo/test/integration/basic/'' \<and>
   filter is_exec (fst (retry_loop example_config ''test/integration/basic/test/index.test.js''
       passes_on_retry 0))
     = [Exec (''git clean -fdx '' @ quoted ''/repo/test/integration/basic/'')] \<and>
   length (filter is_spawn (fst (worker example_config ''test/integration/basic/test/index.test.js''
       None passes_on_retry))) = 2"
proof -
  let ?t = "''test/integration/basic/test/index.test.js''"
  note w = recovery_between_attempts [of example_config ?t passes_on_retry None "\<lambda>i. True"]
  have n: "numRetries example_config ?t = 1"
    by (simp add: numRetries_def shouldSkipRetries_def find_skip_entry_def example_config_def)
  have fp: "first_pass example_config ?t passes_on_retry = Some 1"
    by (simp add: first_pass_Some n passes_on_retry_def failing_run_def passing_run_def failed_def)
  have dir: "recovery_dir example_config ?t = ''/repo/test/integration/basic/''"
    by (simp add: recovery_dir_def example_config_def example_dirname_def example_join_def
        endsWith_def Let_def)
  from w have "fst (retry_loop example_config ?t passes_on_retry 0) =
      failed_iteration example_config ?t passes_on_retry 0
      @ passing_iteration example_config ?t passes_on_retry 1"
    by (simp add: fp)
  moreover from w n have "filter is_exec (failed_iteration example_config ?t passes_on_retry 0) =
        Exec (''git clean -fdx '' @ quoted (recovery_dir example_config ?t))
        # (if clean_ok passes_on_retry 0
           then [Exec (''git checkout '' @ quoted (recovery_dir example_config ?t))] else [])"
    by simp
  moreover from w have "filter is_exec (passing_iteration example_config ?t passes_on_retry 1) = []"
    by blast
  ultimately have ex: "filter is_exec (fst (retry_loop example_config ?t passes_on_retry 0))
     = [Exec (''git clean -fdx '' @ quoted ''/repo/test/integration/basic/'')]"
    by (simp add: dir passes_on_retry_def)
  have sp: "length (filter is_spawn (fst (worker example_config ?t None passes_on_retry))) = 2"
    by (simp add: worker_spawns retry_loop_spawns fp)
  from n fp dir ex sp show ?thesis by simp
qed

subsection \<open>Claims about the timing ledger and the exit code\<close>

text \<open>
  C9 (amended). A worker pushes one timing entry, the identifier with the elapsed time of
  the attempt, for the attempt that passes, and none for an attempt that fails. The
  ledger built from the entries maps an identifier to the duration (in seconds) of the
  last entry pushed for it, and leaves identifiers without an entry as they were.
\<close>

theorem timings_of_passed_attempts:
  "pushed_timings (fst (worker cfg test dirSema env)) =
     (case first_pass cfg test env of
        Some j \<Rightarrow> [(test, elapsed (attempt env j))]
      | None \<Rightarrow> []) \<and>
   (file \<notin> fst ` set later \<longrightarrow>
      record_timings curTimings (earlier @ (file, time) # later) file
        = Some (real_of_int time / 1000)) \<and>
   (file \<notin> fst ` set timings \<longrightarrow> record_timings curTimings timings file = curTimings file)"
  by (simp add: worker_pushed_timings record_timings_last record_timings_other)

theorem timings_of_passed_attempts_witness:
  "''a.test.js'' \<notin> fst ` set [(''b.test.js'', 10::int)] \<and>
   ''c.test.js'' \<notin> fst ` set [(''a.test.js'', 2000::int), (''b.test.js'', 10)] \<and>
   pushed_timings (fst (worker example_config ''a.test.js'' None passes_on_retry))
     = [(''a.test.js'', 1500)] \<and>
   record_timings Map.empty ([(''a.test.js'', 2000)] @ (''a.test.js'', 1500) # [(''b.test.js'', 10)])
       ''a.test.js'' = Some (real_of_int 1500 / 1000) \<and>
   record_timings Map.empty [(''a.test.js'', 2000), (''b.test.js'', 10)] ''c.test.js'' = None"
proof -
  have h1: "''a.test.js'' \<notin> fst ` set [(''b.test.js'', 10::int)]" by simp
  have h2: "''c.test.js'' \<notin> fst ` set [(''a.test.js'', 2000::int), (''b.test.js'', 10)]" by simp
  have n: "numRetries example_config ''a.test.js'' = 1"
    by (simp add: numRetries_def shouldSkipRetries_def find_skip_entry_def example_config_def)
  have fp: "first_pass example_config ''a.test.js'' passes_on_retry = Some 1"
    by (simp add: first_pass_Some n passes_on_retry_def failing_run_def passing_run_def failed_def)
  note w1 = timings_of_passed_attempts [of example_config "''a.test.js''" None passes_on_retry
      "''a.test.js''" "[(''b.test.js'', 10)]" Map.empty "[(''a.test.js'', 2000)]" 1500
      "[(''b.test.js'', 10)]"]
  note w2 = timings_of_passed_attempts [of example_config "''a.test.js''" None passes_on_retry
      "''c.test.js''" "[]" Map.empty "[]" 0 "[(''a.test.js'', 2000), (''b.test.js'', 10)]"]
  from w1 fp have 1: "pushed_timings (fst (worker example_config ''a.test.js'' None passes_on_retry))
     = [(''a.test.js'', 1500)]"
    by (simp add: passes_on_retry_def passing_run_def)
  from w1 h1 have 2: "record_timings Map.empty
       ([(''a.test.js'', 2000)] @ (''a.test.js'', 1500) # [(''b.test.js'', 10)])
       ''a.test.js'' = Some (real_of_int 1500 / 1000)" by blast
  from w2 h2 have 3: "record_timings Map.empty [(''a.test.js'', 2000), (''b.test.js'', 10)]
       ''c.test.js'' = None" by blast
  from h1 h2 1 2 3 show ?thesis by blast
qed

text \<open>
  C9 as stated fails for an attempt that finishes by failing: both attempts of the test
  below run to their exit (code 1 after 900 ms) and nothing is recorded for the test.
\<close>

theorem failed_attempt_not_recorded_counterexample:
  "length (filter is_spawn (fst (worker example_config ''a.test.js'' None always_failing))) = 2 \<and>
   exit_code (attempt always_failing 0) = Some 1 \<and> elapsed (attempt always_failing 0) = 900 \<and>
   pushed_timings (fst (worker example_config ''a.test.js'' None always_failing)) = [] \<and>
   record_timings Map.empty
     (pushed_timings (fst (worker example_config ''a.test.js'' None always_failing)))
     ''a.test.js'' = None"
proof -
  have n: "numRetries example_config ''a.test.js'' = 1"
    by (simp add: numRetries_def shouldSkipRetries_def find_skip_entry_def example_config_def)
  have fp: "first_pass example_config ''a.test.js'' always_failing = None"
    by (simp add: first_pass_None always_failing_def failing_run_def failed_def)
  have 1: "length (filter is_spawn (fst (worker example_config ''a.test.js'' None always_failing))) = 2"
    by (simp add: worker_spawns retry_loop_spawns fp n)
  have 2: "exit_code (attempt always_failing 0) = Some 1 \<and> elapsed (attempt always_failing 0) = 900"
    by (simp add: always_failing_def failing_run_def)
  have 3: "pushed_timings (fst (worker example_config ''a.test.js'' None always_failing)) = []"
    by (simp add: worker_pushed_timings fp)
  from 1 2 3 show ?thesis by simp
qed



subsection \<open>Workers running concurrently\<close>

lemma run_append:
  "run s (ws @ vs) = (case run s ws of None \<Rightarrow> None | Some s' \<Rightarrow> run s' vs)"
  by (induction ws arbitrary: s) (simp_all split: option.splits)

text \<open>
  Every state that a schedule reaches follows the programs of the workers and accounts
  for the permits.
\<close>

lemma advance_Some:
  assumes "advance s w = Some s'"
  obtains e rest f where "w < length (pending s)" and "pending s ! w = e # rest"
    and "permits_after (free s) e = Some f"
    and "s' = \<lparr>pending = (pending s)[w := rest], free = f, history = history s @ [(w, e)]\<rparr>"
  using assms by (auto simp: advance_def split: if_splits list.splits option.splits)

lemma events_of_snoc:
  "events_of w (h @ [(u, e)]) = (if u = w then events_of w h @ [e] else events_of w h)"
  by (simp add: events_of_def)

lemma follows_advance:
  assumes "follows P s" and "advance s w = Some s'"
  shows "follows P s'"
proof -
  from assms(2) obtain e rest f where w: "w < length (pending s)" and nx: "pending s ! w = e # rest"
    and s': "s' = \<lparr>pending = (pending s)[w := rest], free = f, history = history s @ [(w, e)]\<rparr>"
    by (rule advance_Some)
  from assms(1) have len: "length (pending s) = length P"
    and prog: "\<And>u. u < length P \<Longrightarrow> events_of u (history s) @ pending s ! u = P ! u"
    and act: "\<forall>p\<in>set (history s). fst p < length P"
    by (simp_all add: follows_def)
  have "events_of u (history s') @ pending s' ! u = P ! u" if "u < length P" for u
    using prog [OF that] that w nx len by (cases "u = w") (simp_all add: s' events_of_snoc)
  moreover have "\<forall>p\<in>set (history s'). fst p < length P"
    using act w len by (simp add: s')
  ultimately show ?thesis using len by (simp add: follows_def s')
qed

lemma follows_run: "follows P s \<Longrightarrow> run s ws = Some s' \<Longrightarrow> follows P s'"
  by (induction ws arbitrary: s) (auto split: option.splits dest: follows_advance)

lemma follows_initial: "follows (workers cfg envs testNames) (initial_sched cfg envs testNames)"
  by (simp add: follows_def initial_sched_def events_of_def)

lemma balance_of_append: "balance_of x (as @ bs) = balance_of x as + balance_of x bs"
  by (simp add: balance_of_def)

lemma balance_of_Cons:
  "balance_of x (e # es) =
     (if e = Acquire x then 1 else 0) - (if e = Release x then 1 else 0) + balance_of x es"
  by (simp add: balance_of_def)

lemma balance_of_Nil [simp]: "balance_of x [] = 0"
  by (simp add: balance_of_def)

lemma permits_after_balance:
  "permits_after f e = Some f' \<Longrightarrow>
     int (f' x) + ((if e = Acquire x then 1 else 0) - (if e = Release x then 1 else 0)) = int (f x)"
  by (cases e) (auto split: if_splits)

lemma permits_advance:
  assumes "permits_ok f0 s" and "advance s w = Some s'"
  shows "permits_ok f0 s'"
proof -
  from assms(2) obtain e rest f where pa: "permits_after (free s) e = Some f"
    and s': "s' = \<lparr>pending = (pending s)[w := rest], free = f, history = history s @ [(w, e)]\<rparr>"
    by (rule advance_Some)
  show ?thesis
    unfolding permits_ok_def
  proof
    fix x
    from assms(1) have "int (free s x) + balance_of x (map snd (history s)) = int (f0 x)"
      by (simp add: permits_ok_def)
    with permits_after_balance [OF pa, of x]
    show "int (free s' x) + balance_of x (map snd (history s')) = int (f0 x)"
      by (simp add: s' balance_of_append balance_of_Cons)
  qed
qed

lemma permits_run: "permits_ok f0 s \<Longrightarrow> run s ws = Some s' \<Longrightarrow> permits_ok f0 s'"
  by (induction ws arbitrary: s) (auto split: option.splits dest: permits_advance)

lemma permits_initial: "permits_ok (initial_free cfg) (initial_sched cfg envs testNames)"
  by (simp add: permits_ok_def initial_sched_def)

text \<open>
  The balance of a pool over a history is the sum of the balances of the workers.
\<close>

lemma events_of_Cons:
  "events_of w ((u, e) # h) = (if u = w then e # events_of w h else events_of w h)"
  by (simp add: events_of_def)

lemma balance_sum:
  "\<forall>p\<in>set h. fst p < n \<Longrightarrow> balance_of x (map snd h) = (\<Sum>w<n. balance_of x (events_of w h))"
proof (induction h)
  case Nil
  show ?case by (simp add: events_of_def)
next
  case (Cons p h)
  obtain u e where p: "p = (u, e)" by (cases p)
  define d :: int where "d = (if e = Acquire x then 1 else 0) - (if e = Release x then 1 else 0)"
  from Cons.prems p have u: "u < n" by simp
  have "(\<Sum>w<n. balance_of x (events_of w (p # h))) =
        (\<Sum>w<n. (if w = u then d else 0) + balance_of x (events_of w h))"
    by (intro sum.cong refl) (auto simp: p events_of_Cons balance_of_Cons d_def)
  also have "\<dots> = (\<Sum>w<n. if w = u then d else 0) + (\<Sum>w<n. balance_of x (events_of w h))"
    by (rule sum.distrib)
  also have "(\<Sum>w<n. if w = u then d else 0) = d"
    using u by (simp add: sum.delta)
  finally show ?case
    using Cons by (simp add: p balance_of_Cons d_def)
qed

lemma count_events_of: "count_list h (w, e) = count_list (events_of w h) e"
  by (induction h) (auto simp: events_of_def)

lemma holds_balance: "holds h w x \<longleftrightarrow> 0 < balance_of x (events_of w h)"
  by (simp add: holds_def balance_of_def count_events_of)


text \<open>
  A program that uses a pool in brackets holds at most one of its permits, at every
  point of its execution.
\<close>

lemma brackets_append:
  "brackets x held (as @ bs) =
     (case brackets x held as of None \<Rightarrow> None | Some held' \<Rightarrow> brackets x held' bs)"
  by (induction as arbitrary: held) simp_all

lemma brackets_balance:
  "brackets x held p = Some held' \<Longrightarrow> balance_of x p = of_bool held' - of_bool held"
proof (induction p arbitrary: held)
  case Nil
  then show ?case by simp
next
  case (Cons e p)
  then show ?case
    by (auto simp: balance_of_Cons split: if_splits)
qed

lemma brackets_prefix:
  assumes "brackets x False (p @ q) = Some held"
  shows "balance_of x p = 0 \<or> balance_of x p = 1"
proof -
  from assms obtain held' where "brackets x False p = Some held'"
    by (auto simp: brackets_append split: option.splits)
  from brackets_balance [OF this] show ?thesis by (cases held') simp_all
qed

lemma brackets_unused:
  "Acquire x \<notin> set es \<Longrightarrow> Release x \<notin> set es \<Longrightarrow> brackets x held es = Some held"
  by (induction es) auto

text \<open>
  A pool with one permit has at most one holder, when every program uses it in brackets.
\<close>

lemma one_permit_one_holder:
  assumes fol: "follows P s" and per: "permits_ok f0 s" and one: "f0 x = 1"
    and br: "\<forall>w<length P. brackets x False (P ! w) \<noteq> None"
    and v: "holds (history s) v x" and w: "holds (history s) w x"
  shows "v = w"
proof (rule ccontr)
  assume ne: "v \<noteq> w"
  let ?b = "\<lambda>u. balance_of x (events_of u (history s))"
  let ?n = "length P"
  from fol have act: "\<forall>p\<in>set (history s). fst p < ?n"
    and prog: "\<And>u. u < ?n \<Longrightarrow> events_of u (history s) @ pending s ! u = P ! u"
    by (simp_all add: follows_def)
  have rng: "?b u = 0 \<or> ?b u = 1" if "u < ?n" for u
  proof -
    from br that obtain held where "brackets x False (P ! u) = Some held" by auto
    then have "brackets x False (events_of u (history s) @ pending s ! u) = Some held"
      by (simp add: prog [OF that])
    then show ?thesis by (rule brackets_prefix)
  qed
  have out: "?b u = 0" if "\<not> u < ?n" for u
  proof -
    have "events_of u (history s) = []"
      using act that by (auto simp: events_of_def filter_empty_conv)
    then show ?thesis by simp
  qed
  have vn: "v < ?n" using v out [of v] by (cases "v < ?n") (simp_all add: holds_balance)
  have wn: "w < ?n" using w out [of w] by (cases "w < ?n") (simp_all add: holds_balance)
  have "(\<Sum>u<?n. (if u = v then 1 else 0) + (if u = w then 1 else (0::int))) \<le> (\<Sum>u<?n. ?b u)"
  proof (rule sum_mono)
    fix u assume "u \<in> {..<?n}"
    then have "u < ?n" by simp
    from rng [OF this] v w ne
    show "(if u = v then 1 else 0) + (if u = w then 1 else (0::int)) \<le> ?b u"
      by (auto simp: holds_balance)
  qed
  moreover have "(\<Sum>u<?n. (if u = v then 1 else 0) + (if u = w then 1 else (0::int))) = 2"
    using vn wn by (simp add: sum.distrib sum.delta)
  moreover have "balance_of x (map snd (history s)) = (\<Sum>u<?n. ?b u)"
    by (rule balance_sum [OF act])
  moreover from per one have "int (free s x) + balance_of x (map snd (history s)) = 1"
    by (simp add: permits_ok_def)
  ultimately show False by simp
qed


text \<open>
  The program of a worker: its body touches no pool but the print permit, and uses every
  pool in brackets.
\<close>

lemma worker_shape:
  "fst (worker cfg test dirSema env) =
     (case dirSema of None \<Rightarrow> [] | Some d \<Rightarrow> [Acquire (Directory d)])
     @ Acquire Global # worker_body cfg test env
     @ Release Global # (case dirSema of None \<Rightarrow> [] | Some d \<Rightarrow> [Release (Directory d)])"
  by (simp add: worker_def)

lemma only_output_append [simp]: "only_output (as @ bs) \<longleftrightarrow> only_output as \<and> only_output bs"
  by (auto simp: only_output_def)

lemma only_output_Nil [simp]: "only_output []"
  by (simp add: only_output_def)

lemma only_output_writes [simp]: "only_output (map (\<lambda>(tag, chunk). StdoutWrite chunk) cs)"
  by (auto simp: only_output_def)

lemma only_output_attempt: "only_output (attempt_events cfg test env i)"
  by (auto simp: attempt_events_def runTest_def Let_def output_block_def only_output_def)

lemma only_output_iteration:
  "only_output (failed_iteration cfg test env i)" "only_output (passing_iteration cfg test env i)"
  using only_output_attempt [of cfg test env i]
  by (auto simp: failed_iteration_def passing_iteration_def only_output_def)

lemma only_output_concat:
  "only_output (concat (map (failed_iteration cfg test env) is))"
  by (induction "is") (simp_all add: only_output_iteration)

lemma only_output_loop: "only_output (fst (retry_loop cfg test env 0))"
  by (simp add: retry_loop_closed only_output_concat only_output_iteration split: option.splits)

lemma only_output_body: "only_output (worker_body cfg test env)"
proof -
  have "only_output (after_failure cfg test)" "only_output (emit_results cfg env)"
    by (auto simp: after_failure_def emit_results_def only_output_def split: option.splits)
  then show ?thesis
    by (simp add: worker_body_eq only_output_loop) (simp add: only_output_def)
qed

lemma brackets_writes [simp]:
  "brackets x held (map (\<lambda>(tag, chunk). StdoutWrite chunk) cs @ es) = brackets x held es"
  by (induction cs) auto

lemma brackets_attempt: "brackets Output False (attempt_events cfg test env i) = Some False"
  by (simp add: attempt_events_def runTest_def Let_def output_block_def
      brackets_writes [of _ _ _ "[]", simplified])

lemma brackets_iteration:
  "brackets Output False (failed_iteration cfg test env i) = Some False"
  "brackets Output False (passing_iteration cfg test env i) = Some False"
  by (simp_all add: failed_iteration_def passing_iteration_def brackets_append brackets_attempt)

lemma brackets_concat:
  "brackets Output False (concat (map (failed_iteration cfg test env) is)) = Some False"
  by (induction "is") (simp_all add: brackets_append brackets_iteration)

lemma brackets_loop: "brackets Output False (fst (retry_loop cfg test env 0)) = Some False"
  by (simp add: retry_loop_closed brackets_append brackets_concat brackets_iteration
      split: option.splits)

lemma brackets_body: "brackets Output False (worker_body cfg test env) = Some False"
proof -
  have "brackets Output False (after_failure cfg test) = Some False"
    "brackets Output False (emit_results cfg env) = Some False"
    by (simp_all add: after_failure_def emit_results_def split: option.splits)
  then show ?thesis
    by (simp add: worker_body_eq brackets_append brackets_loop)
qed

lemma only_output_unused:
  "only_output es \<Longrightarrow> x \<noteq> Output \<Longrightarrow> Acquire x \<notin> set es \<and> Release x \<notin> set es"
  by (auto simp: only_output_def)

lemma brackets_worker: "brackets x False (fst (worker cfg test dirSema env)) = Some False"
proof (cases "x = Output")
  case True
  then show ?thesis
    by (cases dirSema) (simp_all add: worker_shape brackets_append brackets_body)
next
  case False
  have "brackets x held (worker_body cfg test env) = Some held" for held
    using only_output_unused [OF only_output_body False] by (intro brackets_unused) simp_all
  then show ?thesis
    by (cases dirSema) (auto simp: worker_shape brackets_append)
qed


text \<open>
  A test under \<^verbatim>\<open>test/integration\<close> always gets the pool of its directory.
\<close>

lemma assign_dirSemas_length [simp]:
  "length (assign_dirSemas cfg created testNames) = length testNames"
  by (induction testNames arbitrary: created) (simp_all add: Let_def)

lemma assign_dirSemas_nth:
  "w < length testNames \<Longrightarrow>
     fst (assign_dirSemas cfg created testNames ! w) = testNames ! w \<and>
     (startsWith (testNames ! w) ''test/integration'' \<longrightarrow>
        snd (assign_dirSemas cfg created testNames ! w) = Some (path_dirname cfg (testNames ! w)))"
proof (induction testNames arbitrary: created w)
  case Nil
  then show ?case by simp
next
  case (Cons t ts)
  show ?case
  proof (cases w)
    case 0
    then show ?thesis by (simp add: Let_def)
  next
    case (Suc k)
    with Cons.prems have "k < length ts" by simp
    from Cons.IH [OF this] Suc show ?thesis by (simp add: Let_def)
  qed
qed

lemma workers_length [simp]: "length (workers cfg envs testNames) = length testNames"
  by (simp add: workers_def)

lemma workers_nth:
  assumes "w < length testNames"
  shows "workers cfg envs testNames ! w =
     fst (worker cfg (testNames ! w) (snd (assign_dirSemas cfg [] testNames ! w))
            (envs (testNames ! w)))"
  using assms assign_dirSemas_nth [OF assms, of cfg "[]"]
  by (simp add: workers_def split_def)

text \<open>
  In a program that takes \<open>y\<close>, then \<open>x\<close>, and gives them back in the opposite order,
  \<open>x\<close> is only held while \<open>y\<close> is.
\<close>

lemma balance_of_unused:
  "Acquire x \<notin> set es \<Longrightarrow> Release x \<notin> set es \<Longrightarrow> balance_of x es = 0"
  by (simp add: balance_of_def)

lemma nested_prefix:
  assumes pq: "p @ q = Acquire y # Acquire x # mid @ [Release x, Release y]"
    and ne: "x \<noteq> y"
    and mid: "Acquire x \<notin> set mid" "Release x \<notin> set mid" "Acquire y \<notin> set mid" "Release y \<notin> set mid"
    and held: "0 < balance_of x p"
  shows "0 < balance_of y p"
proof (cases p)
  case Nil
  with held show ?thesis by simp
next
  case (Cons a p1)
  with pq have a: "a = Acquire y" and pq1: "p1 @ q = Acquire x # mid @ [Release x, Release y]"
    by simp_all
  show ?thesis
  proof (cases p1)
    case Nil
    with held ne Cons a show ?thesis by (simp add: balance_of_Cons)
  next
    case p1: (Cons b p2)
    with pq1 have b: "b = Acquire x" and pq2: "p2 @ q = mid @ [Release x, Release y]"
      by simp_all
    from pq2 obtain us where
      "(p2 = mid @ us \<and> us @ q = [Release x, Release y]) \<or> (p2 @ us = mid \<and> q = us @ [Release x, Release y])"
      by (auto simp: append_eq_append_conv2)
    then show ?thesis
    proof
      assume c: "p2 = mid @ us \<and> us @ q = [Release x, Release y]"
      then have "us = [] \<or> us = [Release x] \<or> us = [Release x, Release y]"
        by (cases us; cases "tl us"; cases "tl (tl us)") (auto simp: Cons_eq_append_conv)
      then show ?thesis
        using held ne c mid
        by (auto simp: Cons a p1 b balance_of_Cons balance_of_append balance_of_unused)
    next
      assume c: "p2 @ us = mid \<and> q = us @ [Release x, Release y]"
      then have "set p2 \<subseteq> set mid" by auto
      with mid have "balance_of y p2 = 0"
        by (intro balance_of_unused) auto
      then show ?thesis
        using ne by (simp add: Cons a p1 b balance_of_Cons)
    qed
  qed
qed


text \<open>
  When output is hidden a worker writes to the standard output only between acquiring
  and releasing the print permit.
\<close>

lemma writes_guarded_append:
  "brackets Output held as = Some held' \<Longrightarrow>
     writes_guarded held (as @ bs) \<longleftrightarrow> writes_guarded held as \<and> writes_guarded held' bs"
  by (induction as arbitrary: held) (auto split: if_splits)

lemma writes_guarded_quiet:
  "\<forall>e\<in>set es. \<not> is_write e \<and> e \<noteq> Acquire Output \<and> e \<noteq> Release Output \<Longrightarrow>
     writes_guarded held es"
  by (induction es) auto

lemma writes_guarded_chunks [simp]:
  "writes_guarded True (map (\<lambda>(tag, chunk). StdoutWrite chunk) cs @ es) = writes_guarded True es"
  by (induction cs) auto

lemma writes_guarded_attempt:
  "hideOutput cfg \<Longrightarrow> writes_guarded False (attempt_events cfg test env i)"
  by (simp add: attempt_events_def runTest_def Let_def output_block_def)

lemma writes_guarded_iteration:
  assumes "hideOutput cfg"
  shows "writes_guarded False (failed_iteration cfg test env i)"
    and "writes_guarded False (passing_iteration cfg test env i)"
proof -
  have q: "writes_guarded False es"
    if "\<forall>e\<in>set es. \<not> is_write e \<and> e \<noteq> Acquire Output \<and> e \<noteq> Release Output" for es
    using that by (rule writes_guarded_quiet)
  show "writes_guarded False (failed_iteration cfg test env i)"
    using writes_guarded_attempt [OF assms, of test env i]
    by (simp add: failed_iteration_def writes_guarded_append [OF brackets_attempt] q)
  show "writes_guarded False (passing_iteration cfg test env i)"
    using writes_guarded_attempt [OF assms, of test env i]
    by (simp add: passing_iteration_def writes_guarded_append [OF brackets_attempt] q)
qed

lemma writes_guarded_concat:
  "hideOutput cfg \<Longrightarrow> writes_guarded False (concat (map (failed_iteration cfg test env) is))"
  by (induction "is")
     (simp_all add: writes_guarded_append [OF brackets_iteration(1)] writes_guarded_iteration)

lemma writes_guarded_loop:
  "hideOutput cfg \<Longrightarrow> writes_guarded False (fst (retry_loop cfg test env 0))"
  by (simp add: retry_loop_closed writes_guarded_append [OF brackets_concat]
      writes_guarded_concat writes_guarded_iteration split: option.splits)

lemma writes_guarded_body:
  assumes "hideOutput cfg"
  shows "writes_guarded False (worker_body cfg test env)"
proof -
  have "writes_guarded False (after_failure cfg test)"
    by (simp add: after_failure_def)
  moreover have "brackets Output False (after_failure cfg test) = Some False"
    by (simp add: after_failure_def)
  moreover have "writes_guarded False (emit_results cfg env)"
    by (simp add: emit_results_def split: option.splits)
  ultimately show ?thesis
    using writes_guarded_loop [OF assms, of test env]
    by (simp add: worker_body_eq writes_guarded_append [OF brackets_loop]
        writes_guarded_append [of False "after_failure cfg test" False])
qed

lemma writes_guarded_worker:
  "hideOutput cfg \<Longrightarrow> writes_guarded False (fst (worker cfg test dirSema env))"
  using writes_guarded_body [of cfg test env]
  by (cases dirSema)
     (simp_all add: worker_shape writes_guarded_append [OF brackets_body])

lemma write_needs_permit:
  assumes "writes_guarded held (p @ e # q)" and "is_write e" and "brackets Output held p = Some held'"
  shows "held'"
  using assms
  by (induction p arbitrary: held) (auto split: if_splits)

text \<open>
  Every prefix of a reached history is itself the history of a reached state.
\<close>

lemma run_history_extends: "run s ws = Some s' \<Longrightarrow> \<exists>rest. history s' = history s @ rest"
proof (induction ws arbitrary: s)
  case Nil
  then show ?case by simp
next
  case (Cons w ws)
  then obtain t where a: "advance s w = Some t" and r: "run t ws = Some s'"
    by (auto split: option.splits)
  from a obtain e where "history t = history s @ [(w, e)]"
    by (auto elim: advance_Some)
  with Cons.IH [OF r] show ?case by auto
qed

lemma run_prefix:
  "run s ws = Some s' \<Longrightarrow> history s' = history s @ h1 @ h2 \<Longrightarrow>
     \<exists>ws1 s1. run s ws1 = Some s1 \<and> history s1 = history s @ h1"
proof (induction ws arbitrary: s h1)
  case Nil
  then have "h1 = []" by simp
  then show ?case by (intro exI [of _ "[]"]) simp
next
  case (Cons w ws)
  show ?case
  proof (cases h1)
    case Nil
    then show ?thesis by (intro exI [of _ "[]"]) simp
  next
    case h1: (Cons a h1')
    from Cons.prems(1) obtain t where adv: "advance s w = Some t" and r: "run t ws = Some s'"
      by (auto split: option.splits)
    from adv obtain e where t: "history t = history s @ [(w, e)]"
      by (auto elim: advance_Some)
    from run_history_extends [OF r] obtain rest where "history s' = history t @ rest" by blast
    with t Cons.prems(2) h1 have a: "a = (w, e)" and "history s' = history t @ h1' @ h2"
      by simp_all
    from Cons.IH [OF r this(2)] obtain ws1 s1 where "run t ws1 = Some s1"
      and "history s1 = history t @ h1'" by blast
    with adv t a h1 have "run s (w # ws1) = Some s1 \<and> history s1 = history s @ h1" by simp
    then show ?thesis by blast
  qed
qed


lemma run_facts:
  assumes "run (initial_sched cfg envs testNames) schedule = Some s"
  shows "follows (workers cfg envs testNames) s" and "permits_ok (initial_free cfg) s"
  using follows_run [OF follows_initial assms] permits_run [OF permits_initial assms]
  by simp_all

lemma workers_brackets:
  "\<forall>w<length (workers cfg envs testNames). brackets x False (workers cfg envs testNames ! w) \<noteq> None"
  by (simp add: workers_nth brackets_worker)

lemma one_holder:
  assumes "run (initial_sched cfg envs testNames) schedule = Some s"
    and "x = Output \<or> x = Directory d"
    and "holds (history s) v x" and "holds (history s) w x"
  shows "v = w"
proof (rule one_permit_one_holder [OF run_facts [OF assms(1)] _ workers_brackets assms(3,4)])
  show "initial_free cfg x = 1" using assms(2) by (auto simp: initial_free_def)
qed

lemma legacy_program:
  assumes "w < length testNames" and "startsWith (testNames ! w) ''test/integration''"
  shows "workers cfg envs testNames ! w =
     Acquire (Directory (path_dirname cfg (testNames ! w))) # Acquire Global
       # worker_body cfg (testNames ! w) (envs (testNames ! w))
       @ [Release Global, Release (Directory (path_dirname cfg (testNames ! w)))]"
  using assign_dirSemas_nth [OF assms(1), of cfg "[]"] assms(2)
  by (simp add: workers_nth [OF assms(1)] worker_shape)

lemma legacy_nested:
  assumes run: "run (initial_sched cfg envs testNames) schedule = Some s"
    and w: "w < length testNames" and legacy: "startsWith (testNames ! w) ''test/integration''"
    and g: "holds (history s) w Global"
  shows "holds (history s) w (Directory (path_dirname cfg (testNames ! w)))"
proof -
  let ?d = "Directory (path_dirname cfg (testNames ! w))"
  let ?body = "worker_body cfg (testNames ! w) (envs (testNames ! w))"
  from run_facts(1) [OF run] w
  have "events_of w (history s) @ pending s ! w = workers cfg envs testNames ! w"
    by (simp add: follows_def)
  then have pq: "events_of w (history s) @ pending s ! w =
      Acquire ?d # Acquire Global # ?body @ [Release Global, Release ?d]"
    by (simp add: legacy_program [OF w legacy])
  have "0 < balance_of ?d (events_of w (history s))"
  proof (rule nested_prefix [OF pq])
    show "Global \<noteq> ?d" by simp
    show "Acquire Global \<notin> set ?body" "Release Global \<notin> set ?body"
      using only_output_unused [OF only_output_body, of Global] by simp_all
    show "Acquire ?d \<notin> set ?body" "Release ?d \<notin> set ?body"
      using only_output_unused [OF only_output_body, of ?d] by simp_all
    show "0 < balance_of Global (events_of w (history s))"
      using g by (simp add: holds_balance)
  qed
  then show ?thesis by (simp add: holds_balance)
qed

lemma reached_before:
  assumes "run (initial_sched cfg envs testNames) schedule = Some s"
    and "history s = h1 @ h2"
  obtains schedule1 s1 where "run (initial_sched cfg envs testNames) schedule1 = Some s1"
    and "history s1 = h1"
  using run_prefix [OF assms(1), of h1 h2] assms(2)
  by (auto simp: initial_sched_def)

lemma balance_nonneg:
  assumes "run (initial_sched cfg envs testNames) schedule = Some s"
  shows "0 \<le> balance_of x (events_of w (history s))"
proof (cases "w < length testNames")
  case True
  from run_facts(1) [OF assms] True
  have "events_of w (history s) @ pending s ! w = workers cfg envs testNames ! w"
    by (simp add: follows_def)
  then have "brackets x False (events_of w (history s) @ pending s ! w) = Some False"
    using True by (simp add: workers_nth brackets_worker)
  from brackets_prefix [OF this] show ?thesis by auto
next
  case False
  from run_facts(1) [OF assms] have "\<forall>p\<in>set (history s). fst p < length testNames"
    by (simp add: follows_def)
  with False have "events_of w (history s) = []"
    by (auto simp: events_of_def filter_empty_conv)
  then show ?thesis by simp
qed

lemma write_holds_permit:
  assumes hide: "hideOutput cfg"
    and run: "run (initial_sched cfg envs testNames) schedule = Some s"
    and h: "history s = pre @ (w, StdoutWrite c) # post"
  shows "holds pre w Output" and "\<forall>v. holds pre v Output \<longrightarrow> v = w"
proof -
  from h have "history s = (pre @ [(w, StdoutWrite c)]) @ post" by simp
  from reached_before [OF run this] obtain sch2 s2
    where r2: "run (initial_sched cfg envs testNames) sch2 = Some s2"
      and h2: "history s2 = pre @ [(w, StdoutWrite c)]" by blast
  from reached_before [OF r2 h2] obtain sch1 s1
    where r1: "run (initial_sched cfg envs testNames) sch1 = Some s1"
      and h1: "history s1 = pre" by blast
  from run_facts(1) [OF r2] h2 have w: "w < length testNames"
    by (simp add: follows_def)
  with run_facts(1) [OF r2]
  have "events_of w (history s2) @ pending s2 ! w = workers cfg envs testNames ! w"
    by (simp add: follows_def)
  then have prog: "events_of w pre @ StdoutWrite c # pending s2 ! w
      = fst (worker cfg (testNames ! w) (snd (assign_dirSemas cfg [] testNames ! w))
            (envs (testNames ! w)))"
    using w by (simp add: h2 events_of_snoc workers_nth)
  have g: "writes_guarded False (events_of w pre @ StdoutWrite c # pending s2 ! w)"
    unfolding prog by (rule writes_guarded_worker [OF hide])
  have "brackets Output False (events_of w pre @ StdoutWrite c # pending s2 ! w) = Some False"
    unfolding prog by (rule brackets_worker)
  then obtain held where b: "brackets Output False (events_of w pre) = Some held"
    by (auto simp: brackets_append split: option.splits)
  from write_needs_permit [OF g _ b] have held by simp
  with brackets_balance [OF b] show "holds pre w Output"
    by (simp add: holds_balance)
  then show "\<forall>v. holds pre v Output \<longrightarrow> v = w"
    using one_holder [OF r1, of Output] by (auto simp: h1)
qed

lemma block_not_interleaved:
  assumes hide: "hideOutput cfg"
    and run: "run (initial_sched cfg envs testNames) schedule = Some s"
    and h: "history s = a @ (w, Acquire Output) # mid @ (w, Release Output) # c"
    and open_block: "(w, Release Output) \<notin> set mid"
    and e: "(v, e) \<in> set mid" "is_write e"
  shows "v = w"
proof -
  from e(1) obtain m1 m2 where mid: "mid = m1 @ (v, e) # m2" by (auto simp: in_set_conv_decomp)
  from e(2) obtain chunk where ev: "e = StdoutWrite chunk" by (cases e) simp_all
  let ?pre = "a @ (w, Acquire Output) # m1"
  have hs: "history s = ?pre @ (v, StdoutWrite chunk) # (m2 @ (w, Release Output) # c)"
    by (simp add: h mid ev)
  from h have "history s = a @ ((w, Acquire Output) # mid @ (w, Release Output) # c)" by simp
  from reached_before [OF run this] obtain scha sa
    where "run (initial_sched cfg envs testNames) scha = Some sa" and "history sa = a" by blast
  from balance_nonneg [OF this(1), of Output w] this(2)
  have "count_list a (w, Release Output) \<le> count_list a (w, Acquire Output)"
    by (simp add: balance_of_def count_events_of)
  moreover from open_block mid have "count_list m1 (w, Release Output) = 0"
    by (simp add: count_list_0_iff)
  ultimately have "holds ?pre w Output"
    by (simp add: holds_def)
  with write_holds_permit(2) [OF hide run hs] show ?thesis by blast
qed

lemma attempt_events_passed:
  "hideOutput cfg \<Longrightarrow> \<not> failed (attempt env i) \<Longrightarrow>
     filter is_write (attempt_events cfg test env i) = []"
  by (simp add: attempt_events_def runTest_def Let_def)

lemma attempt_events_failed:
  "hideOutput cfg \<Longrightarrow> failed (attempt env i) \<Longrightarrow>
     attempt_events cfg test env i =
       Spawn test (shouldSkipRetries cfg test \<or> i = numRetries cfg test)
         (shouldSkipRetries cfg test \<or> 0 < i)
       # Acquire Output
       # StdoutWrite (GROUP cfg @ test @ '' output\<newline>'')
       # map (\<lambda>(tag, chunk). StdoutWrite chunk) (chunks (attempt env i))
       @ [StdoutWrite (''end of '' @ test @ '' output\<newline>'' @ ENDGROUP cfg @ ''\<newline>''),
          Release Output]"
  by (simp add: attempt_events_def runTest_def Let_def output_block_def)


subsection \<open>Claims about the permit pools\<close>

text \<open>
  C7. Take any schedule of the workers and a test under \<^verbatim>\<open>test/integration\<close>. Its worker
  acquires the permit of its directory first and the global permit second, does its work
  (which touches neither of the two), releases the global permit and releases the
  directory permit last; what it has done at any time is a prefix of that program. So
  whenever it holds the global permit it holds its directory's permit. No other worker
  holds that directory's permit at the same time, and therefore two tests under
  \<^verbatim>\<open>test/integration\<close> with the same directory never hold the global permit (never
  execute) at the same time.
\<close>

theorem directory_exclusive:
  assumes run: "run (initial_sched cfg envs testNames) schedule = Some s"
    and w: "w < length testNames" and legacy: "startsWith (testNames ! w) ''test/integration''"
  shows "workers cfg envs testNames ! w =
           Acquire (Directory (path_dirname cfg (testNames ! w))) # Acquire Global
             # worker_body cfg (testNames ! w) (envs (testNames ! w))
             @ [Release Global, Release (Directory (path_dirname cfg (testNames ! w)))] \<and>
         only_output (worker_body cfg (testNames ! w) (envs (testNames ! w))) \<and>
         events_of w (history s) @ pending s ! w = workers cfg envs testNames ! w \<and>
         (holds (history s) w Global \<longrightarrow>
            holds (history s) w (Directory (path_dirname cfg (testNames ! w)))) \<and>
         (\<forall>v. v \<noteq> w \<longrightarrow>
            \<not> (holds (history s) v (Directory (path_dirname cfg (testNames ! w))) \<and>
               holds (history s) w (Directory (path_dirname cfg (testNames ! w))))) \<and>
         (\<forall>v. v \<noteq> w \<and> v < length testNames \<and> startsWith (testNames ! v) ''test/integration'' \<and>
              path_dirname cfg (testNames ! v) = path_dirname cfg (testNames ! w) \<longrightarrow>
            \<not> (holds (history s) v Global \<and> holds (history s) w Global))"
proof -
  let ?d = "Directory (path_dirname cfg (testNames ! w))"
  have A: "workers cfg envs testNames ! w =
           Acquire ?d # Acquire Global # worker_body cfg (testNames ! w) (envs (testNames ! w))
             @ [Release Global, Release ?d]"
    by (rule legacy_program [OF w legacy])
  have B: "only_output (worker_body cfg (testNames ! w) (envs (testNames ! w)))"
    by (rule only_output_body)
  have C: "events_of w (history s) @ pending s ! w = workers cfg envs testNames ! w"
    using run_facts(1) [OF run] w by (simp add: follows_def)
  have D: "holds (history s) w Global \<longrightarrow> holds (history s) w ?d"
    using legacy_nested [OF run w legacy] by blast
  have E: "\<forall>v. v \<noteq> w \<longrightarrow> \<not> (holds (history s) v ?d \<and> holds (history s) w ?d)"
    using one_holder [OF run, of ?d] by blast
  have F: "\<forall>v. v \<noteq> w \<and> v < length testNames \<and> startsWith (testNames ! v) ''test/integration'' \<and>
              path_dirname cfg (testNames ! v) = path_dirname cfg (testNames ! w) \<longrightarrow>
            \<not> (holds (history s) v Global \<and> holds (history s) w Global)"
  proof (intro allI impI)
    fix v
    assume v: "v \<noteq> w \<and> v < length testNames \<and> startsWith (testNames ! v) ''test/integration'' \<and>
              path_dirname cfg (testNames ! v) = path_dirname cfg (testNames ! w)"
    show "\<not> (holds (history s) v Global \<and> holds (history s) w Global)"
    proof
      assume h: "holds (history s) v Global \<and> holds (history s) w Global"
      from h legacy_nested [OF run w legacy] have "holds (history s) w ?d" by blast
      moreover from h v legacy_nested [OF run, of v] have "holds (history s) v ?d" by auto
      ultimately show False using E v by blast
    qed
  qed
  from A B C D E F show ?thesis by blast
qed

theorem directory_exclusive_witness:
  "\<exists>s. run (initial_sched example_config (\<lambda>t. always_failing)
              [''test/integration/basic/a.test.js'', ''test/integration/basic/b.test.js''])
            [0, 0] = Some s \<and>
       0 < length [''test/integration/basic/a.test.js'', ''test/integration/basic/b.test.js''] \<and>
       startsWith ([''test/integration/basic/a.test.js'', ''test/integration/basic/b.test.js''] ! 0)
         ''test/integration'' \<and>
       history s = [(0, Acquire (Directory ''test/integration/basic'')), (0, Acquire Global)] \<and>
       holds (history s) 0 Global \<and>
       holds (history s) 0 (Directory ''test/integration/basic'') \<and>
       \<not> holds (history s) 1 (Directory ''test/integration/basic'') \<and>
       advance s 1 = None"
proof -
  let ?T = "[''test/integration/basic/a.test.js'', ''test/integration/basic/b.test.js'']"
  let ?envs = "\<lambda>t::string. always_failing"
  let ?d = "Directory ''test/integration/basic''"
  define P where "P = workers example_config ?envs ?T"
  have w0: "0 < length ?T" and w1: "1 < length ?T" by simp_all
  have l0: "startsWith (?T ! 0) ''test/integration''" and l1: "startsWith (?T ! 1) ''test/integration''"
    by simp_all
  have d0: "path_dirname example_config (?T ! 0) = ''test/integration/basic''"
    and d1: "path_dirname example_config (?T ! 1) = ''test/integration/basic''"
    by (simp_all add: example_config_def example_dirname_def)
  have len: "length P = 2" by (simp add: P_def)
  obtain r0 where p0: "P ! 0 = Acquire ?d # Acquire Global # r0"
    using legacy_program [OF w0 l0, of example_config ?envs] unfolding d0 P_def by simp
  obtain r1 where p1: "P ! 1 = Acquire ?d # r1"
    using legacy_program [OF w1 l1, of example_config ?envs] unfolding d1 P_def by simp
  define s2 where "s2 = \<lparr>pending = P[0 := r0],
      free = (initial_free example_config)(?d := 0, Global := 1),
      history = [(0, Acquire ?d), (0, Acquire Global)]\<rparr>"
  have c: "concurrency example_config = 2" by (simp add: example_config_def)
  define s1 where "s1 = \<lparr>pending = P[0 := Acquire Global # r0],
      free = (initial_free example_config)(?d := 0), history = [(0, Acquire ?d)]\<rparr>"
  have a1: "advance (initial_sched example_config ?envs ?T) 0 = Some s1"
    unfolding initial_sched_def P_def [symmetric]
    by (simp add: advance_def len p0 s1_def initial_free_def)
  have a2: "advance s1 0 = Some s2"
    by (simp add: advance_def len s1_def s2_def initial_free_def c fun_upd_twist)
  have r: "run (initial_sched example_config ?envs ?T) [0, 0] = Some s2"
    by (simp add: a1 a2)
  note w = directory_exclusive [OF r w0 l0, unfolded d0]
  have g: "holds (history s2) 0 Global" by (simp add: s2_def holds_def)
  from w g have h: "holds (history s2) 0 ?d" by blast
  from w h have n: "\<not> holds (history s2) 1 ?d" by (metis zero_neq_one)
  have b: "advance s2 1 = None"
    using p1 by (simp add: advance_def s2_def len)
  have hs: "history s2 = [(0, Acquire ?d), (0, Acquire Global)]" by (simp add: s2_def)
  from r w0 l0 hs g h n b show ?thesis by blast
qed

text \<open>
  C8. In a run that hides output: an attempt that passes writes nothing of its buffer;
  an attempt that fails acquires the print permit, writes the start marker, the buffered
  chunks in the order they were captured and the end marker, and releases the permit.
  In every schedule a \<^verbatim>\<open>process.stdout.write\<close> is done by a worker that holds the print
  permit while no other worker holds it, and between a worker's acquisition of the print
  permit and its release of it no other worker writes: blocks are not interleaved.
\<close>

theorem output_blocks_exclusive:
  assumes hide: "hideOutput cfg"
    and run: "run (initial_sched cfg envs testNames) schedule = Some s"
  shows "(\<forall>test env i. \<not> failed (attempt env i) \<longrightarrow>
            filter is_write (attempt_events cfg test env i) = []) \<and>
         (\<forall>test env i. failed (attempt env i) \<longrightarrow>
            attempt_events cfg test env i =
              Spawn test (shouldSkipRetries cfg test \<or> i = numRetries cfg test)
                (shouldSkipRetries cfg test \<or> 0 < i)
              # Acquire Output
              # StdoutWrite (GROUP cfg @ test @ '' output\<newline>'')
              # map (\<lambda>(tag, chunk). StdoutWrite chunk) (chunks (attempt env i))
              @ [StdoutWrite (''end of '' @ test @ '' output\<newline>'' @ ENDGROUP cfg @ ''\<newline>''),
                 Release Output]) \<and>
         (\<forall>pre w chunk post. history s = pre @ (w, StdoutWrite chunk) # post \<longrightarrow>
            holds pre w Output \<and> (\<forall>v. holds pre v Output \<longrightarrow> v = w)) \<and>
         (\<forall>a w mid c. history s = a @ (w, Acquire Output) # mid @ (w, Release Output) # c \<and>
              (w, Release Output) \<notin> set mid \<longrightarrow>
            (\<forall>v e. (v, e) \<in> set mid \<and> is_write e \<longrightarrow> v = w))"
proof -
  have A: "\<forall>test env i. \<not> failed (attempt env i) \<longrightarrow>
            filter is_write (attempt_events cfg test env i) = []"
    using attempt_events_passed [OF hide] by blast
  have B: "\<forall>test env i. failed (attempt env i) \<longrightarrow>
            attempt_events cfg test env i =
              Spawn test (shouldSkipRetries cfg test \<or> i = numRetries cfg test)
                (shouldSkipRetries cfg test \<or> 0 < i)
              # Acquire Output
              # StdoutWrite (GROUP cfg @ test @ '' output\<newline>'')
              # map (\<lambda>(tag, chunk). StdoutWrite chunk) (chunks (attempt env i))
              @ [StdoutWrite (''end of '' @ test @ '' output\<newline>'' @ ENDGROUP cfg @ ''\<newline>''),
                 Release Output]"
    using attempt_events_failed [OF hide] by blast
  have C: "\<forall>pre w chunk post. history s = pre @ (w, StdoutWrite chunk) # post \<longrightarrow>
            holds pre w Output \<and> (\<forall>v. holds pre v Output \<longrightarrow> v = w)"
    using write_holds_permit [OF hide run] by blast
  have D: "\<forall>a w mid c. history s = a @ (w, Acquire Output) # mid @ (w, Release Output) # c \<and>
              (w, Release Output) \<notin> set mid \<longrightarrow>
            (\<forall>v e. (v, e) \<in> set mid \<and> is_write e \<longrightarrow> v = w)"
    using block_not_interleaved [OF hide run] by blast
  from A B C D show ?thesis by blast
qed

theorem output_blocks_exclusive_witness:
  "hideOutput example_config \<and>
   (\<exists>s. run (initial_sched example_config (\<lambda>t. always_failing) [''a.test.js''])
             [0, 0, 0, 0, 0, 0] = Some s \<and>
        history s =
          [(0, Acquire Global), (0, ConsoleLog (Starting ''a.test.js'' 0 1)),
           (0, Spawn ''a.test.js'' False False), (0, Acquire Output),
           (0, StdoutWrite ''a.test.js output\<newline>'')]
          @ (0, StdoutWrite ''boom'') # [] \<and>
        holds [(0, Acquire Global), (0, ConsoleLog (Starting ''a.test.js'' 0 1)),
               (0, Spawn ''a.test.js'' False False), (0, Acquire Output),
               (0, StdoutWrite ''a.test.js output\<newline>'')] 0 Output \<and>
        \<not> holds [(0, Acquire Global), (0, ConsoleLog (Starting ''a.test.js'' 0 1)),
               (0, Spawn ''a.test.js'' False False), (0, Acquire Output),
               (0, StdoutWrite ''a.test.js output\<newline>'')] 1 Output)"
proof -
  let ?envs = "\<lambda>t::string. always_failing"
  let ?pre = "[(0::nat, Acquire Global), (0, ConsoleLog (Starting ''a.test.js'' 0 1)),
               (0, Spawn ''a.test.js'' False False), (0, Acquire Output),
               (0, StdoutWrite ''a.test.js output\<newline>'')]"
  define P where "P = workers example_config ?envs [''a.test.js'']"
  have hide: "hideOutput example_config" by (simp add: example_config_def)
  have c: "concurrency example_config = 2" by (simp add: example_config_def)
  have len: "length P = 1" by (simp add: P_def)
  have n: "numRetries example_config ''a.test.js'' = 1"
    and sk: "\<not> shouldSkipRetries example_config ''a.test.js''"
    by (simp_all add: numRetries_def shouldSkipRetries_def find_skip_entry_def example_config_def)
  have fp: "first_pass example_config ''a.test.js'' always_failing = None"
    by (simp add: first_pass_None always_failing_def failing_run_def failed_def)
  have f0: "failed (attempt always_failing 0)"
    by (simp add: always_failing_def failing_run_def failed_def)
  have ch: "chunks (attempt always_failing 0) = [(stdout, ''boom''), (stderr, ''trace'')]"
    by (simp add: always_failing_def failing_run_def)
  have gr: "GROUP example_config = []" by (simp add: example_config_def)
  have ds: "snd (assign_dirSemas example_config [] [''a.test.js''] ! 0) = None"
    by simp
  obtain rest where p0: "P ! 0 =
      Acquire Global # ConsoleLog (Starting ''a.test.js'' 0 1) # Spawn ''a.test.js'' False False
      # Acquire Output # StdoutWrite ''a.test.js output\<newline>'' # StdoutWrite ''boom'' # rest"
    unfolding P_def
    by (simp add: workers_nth ds worker_shape worker_body_eq sk retry_loop_closed fp n
        failed_iteration_def attempt_events_failed [OF hide f0] ch gr)
  define s6 where "s6 = \<lparr>pending = P[0 := rest],
      free = (initial_free example_config)(Global := 1, Output := 0),
      history = ?pre @ (0, StdoutWrite ''boom'') # []\<rparr>"
  have r: "run (initial_sched example_config ?envs [''a.test.js'']) [0, 0, 0, 0, 0, 0] = Some s6"
    unfolding initial_sched_def P_def [symmetric]
    by (simp add: advance_def len p0 s6_def initial_free_def c)
  have hs: "history s6 = ?pre @ (0, StdoutWrite ''boom'') # []" by (simp add: s6_def)
  note w = output_blocks_exclusive [OF hide r]
  from w hs have h: "holds ?pre 0 Output \<and> (\<forall>v. holds ?pre v Output \<longrightarrow> v = 0)" by blast
  then have "\<not> holds ?pre 1 Output" by (metis zero_neq_one)
  with hide r hs h show ?thesis by blast
qed


end
